theory Spec2Isabelle
  imports Main "HOL-Library.Char_ord" "HOL-Library.List_Lexorder"
begin

section \<open>Strings\<close>

text \<open>
  A Python string is a sequence of code points. It is modelled as a \<^typ>\<open>string\<close> whose
  characters are the code points 0 to 255; strings with other code points have no
  counterpart here. The character classes below are Python's on these 256 code points:
  \<^verbatim>\<open>str.isspace\<close> (which \<^verbatim>\<open>str.strip\<close>, \<^verbatim>\<open>str.split\<close> and the class \<^verbatim>\<open>\s\<close> of
  the \<^verbatim>\<open>re\<close> module share), \<^verbatim>\<open>str.isalnum\<close> (the class \<^verbatim>\<open>\w\<close> without the
  underscore) and \<^verbatim>\<open>str.lower\<close>.
\<close>

text \<open>
  Whitespace: tab to carriage return, the four separators 28 to 31, the blank, and above
  127 the next-line control 133 and the no-break space 160.
\<close>

definition is_space :: "char \<Rightarrow> bool" where
  "is_space c = (of_char c \<in> {9, 10, 11, 12, 13, 28, 29, 30, 31, 32, 133, 160 :: nat})"

text \<open>The ASCII letters and digits: the ranges \<^verbatim>\<open>A-Z\<close>, \<^verbatim>\<open>a-z\<close> and \<^verbatim>\<open>0-9\<close>.\<close>

definition is_upper :: "char \<Rightarrow> bool" where
  "is_upper c = (65 \<le> (of_char c :: nat) \<and> (of_char c :: nat) \<le> 90)"

definition is_lower :: "char \<Rightarrow> bool" where
  "is_lower c = (97 \<le> (of_char c :: nat) \<and> (of_char c :: nat) \<le> 122)"

definition is_digit :: "char \<Rightarrow> bool" where
  "is_digit c = (48 \<le> (of_char c :: nat) \<and> (of_char c :: nat) \<le> 57)"

text \<open>
  The alphanumeric code points above 127: the ordinal indicators 170 and 186, the
  superscript digits 178, 179 and 185, the micro sign 181, the fractions 188 to 190, and
  the letters 192 to 255 without the multiplication sign 215 and the division sign 247.
\<close>

definition is_latin1_alnum :: "char \<Rightarrow> bool" where
  "is_latin1_alnum c =
     (let n = (of_char c :: nat) in
      n = 170 \<or> n = 178 \<or> n = 179 \<or> n = 181 \<or> n = 185 \<or> n = 186 \<or>
      (188 \<le> n \<and> n \<le> 190) \<or> (192 \<le> n \<and> n \<le> 214) \<or>
      (216 \<le> n \<and> n \<le> 246) \<or> (248 \<le> n \<and> n \<le> 255))"

text \<open>The upper-case letters above 127: 192 to 222 without the multiplication sign.\<close>

definition is_latin1_upper :: "char \<Rightarrow> bool" where
  "is_latin1_upper c =
     (let n = (of_char c :: nat) in (192 \<le> n \<and> n \<le> 214) \<or> (216 \<le> n \<and> n \<le> 222))"

definition isalnum_char :: "char \<Rightarrow> bool" where
  "isalnum_char c = (is_upper c \<or> is_lower c \<or> is_digit c \<or> is_latin1_alnum c)"

text \<open>\<^verbatim>\<open>s.isalnum()\<close>: every character alphanumeric, and at least one character.\<close>

definition isalnum :: "string \<Rightarrow> bool" where
  "isalnum s = (s \<noteq> [] \<and> list_all isalnum_char s)"

text \<open>The class \<^verbatim>\<open>\w\<close> of the \<^verbatim>\<open>re\<close> module.\<close>

definition is_word_char :: "char \<Rightarrow> bool" where
  "is_word_char c = (isalnum_char c \<or> c = CHR ''_'')"

text \<open>
  \<^verbatim>\<open>str.lower\<close> on one code point: every upper-case letter below 256 has its lower-case
  letter 32 places further on, and nothing else changes.
\<close>

definition lower_char :: "char \<Rightarrow> char" where
  "lower_char c =
     (if is_upper c \<or> is_latin1_upper c then char_of (of_char c + (32 :: nat)) else c)"

definition lower :: "string \<Rightarrow> string" where
  "lower s = map lower_char s"

text \<open>\<^verbatim>\<open>s.strip()\<close>: leading and trailing whitespace removed.\<close>

definition strip :: "string \<Rightarrow> string" where
  "strip s = rev (dropWhile is_space (rev (dropWhile is_space s)))"

text \<open>\<^verbatim>\<open>s.split()\<close>: the maximal runs of non-whitespace characters.\<close>

fun words_acc :: "string \<Rightarrow> string \<Rightarrow> string list" where
  "words_acc cur [] = (if cur = [] then [] else [cur])"
| "words_acc cur (x # xs) =
     (if is_space x then (if cur = [] then words_acc [] xs else cur # words_acc [] xs)
      else words_acc (cur @ [x]) xs)"

definition split_ws :: "string \<Rightarrow> string list" where
  "split_ws s = words_acc [] s"

text \<open>\<^verbatim>\<open>s.split(c)\<close> for a one-character separator: never the empty list.\<close>

fun split_on :: "char \<Rightarrow> string \<Rightarrow> string list" where
  "split_on c [] = [[]]"
| "split_on c (x # xs) =
     (if x = c then [] # split_on c xs
      else (case split_on c xs of [] \<Rightarrow> [[x]] | w # ws \<Rightarrow> (x # w) # ws))"

text \<open>\<^verbatim>\<open>s.replace(a, b)\<close> for one-character \<^verbatim>\<open>a\<close> and \<^verbatim>\<open>b\<close>, and for \<^verbatim>\<open>b\<close> empty.\<close>

definition replace_char :: "char \<Rightarrow> char \<Rightarrow> string \<Rightarrow> string" where
  "replace_char a b s = map (\<lambda>c. if c = a then b else c) s"

definition remove_char :: "char \<Rightarrow> string \<Rightarrow> string" where
  "remove_char a s = filter (\<lambda>c. c \<noteq> a) s"

text \<open>\<^verbatim>\<open>sep.join(xs)\<close>.\<close>

fun join :: "string \<Rightarrow> string list \<Rightarrow> string" where
  "join sep [] = []"
| "join sep [x] = x"
| "join sep (x # y # ys) = x @ sep @ join sep (y # ys)"

text \<open>\<^verbatim>\<open>suffix in s\<close> and \<^verbatim>\<open>s.endswith(suffix)\<close>.\<close>

fun contains :: "string \<Rightarrow> string \<Rightarrow> bool" where
  "contains pat [] = (pat = [])"
| "contains pat (x # xs) = (take (length pat) (x # xs) = pat \<or> contains pat xs)"

definition endswith :: "string \<Rightarrow> string \<Rightarrow> bool" where
  "endswith s suf = (length suf \<le> length s \<and> drop (length s - length suf) s = suf)"

text \<open>\<^verbatim>\<open>str(n)\<close> for a non-negative integer.\<close>

definition digit_char :: "nat \<Rightarrow> char" where
  "digit_char d = char_of (48 + d)"

fun show_nat :: "nat \<Rightarrow> string" where
  "show_nat n = (if n < 10 then [digit_char n] else show_nat (n div 10) @ [digit_char (n mod 10)])"

declare show_nat.simps [simp del]

section \<open>Schema model (schema\_parser.py)\<close>

record column =
  col_name :: string
  col_type :: string
  col_description :: string
  is_primary_key :: bool
  is_foreign_key :: bool
  references :: "(string \<times> string) option"

text \<open>
  A foreign-key declaration of the schema document: a dictionary read with \<^verbatim>\<open>fk.get\<close>, so
  each key may be missing (\<open>None\<close>).
\<close>

record fk_data =
  fk_column :: "string option"
  fk_references_table :: "string option"
  fk_references_column :: "string option"

record table =
  tbl_name :: string
  columns :: "column list"
  foreign_keys :: "fk_data list"
  tbl_description :: string

text \<open>The schema document: \<^verbatim>\<open>.get\<close> with a default is the default when the key is missing.\<close>

record col_data =
  cd_name :: "string option"
  cd_type :: "string option"
  cd_description :: "string option"

record table_data =
  td_name :: "string option"
  td_description :: "string option"
  td_columns :: "col_data list"
  td_foreign_keys :: "fk_data list"

text \<open>An edge of the \<^verbatim>\<open>networkx.DiGraph\<close>: its attribute dictionary.\<close>

record edge_attrs =
  ea_column :: string
  ea_references :: string
  ea_direction :: string

text \<open>
  A Python \<^verbatim>\<open>dict\<close> is an association list in insertion order; assigning to a key that
  is present replaces the value where it stands.
\<close>

fun dict_set :: "'k \<Rightarrow> 'v \<Rightarrow> ('k \<times> 'v) list \<Rightarrow> ('k \<times> 'v) list" where
  "dict_set k v [] = [(k, v)]"
| "dict_set k v (p # ps) = (if fst p = k then (k, v) # ps else p # dict_set k v ps)"

text \<open>
  The directed graph keeps one attribute dictionary per ordered pair of nodes;
  \<^verbatim>\<open>add_edge\<close> on a pair that is present overwrites its attributes. The graph is only
  ever built with \<^verbatim>\<open>add_edge\<close>, so its nodes are the end points of its edges.
\<close>

type_synonym digraph = "((string \<times> string) \<times> edge_attrs) list"

definition add_edge :: "string \<Rightarrow> string \<Rightarrow> edge_attrs \<Rightarrow> digraph \<Rightarrow> digraph" where
  "add_edge u v a g = dict_set (u, v) a g"

definition get_edge_data :: "digraph \<Rightarrow> string \<Rightarrow> string \<Rightarrow> edge_attrs option" where
  "get_edge_data g u v = map_of g (u, v)"

definition nodes :: "digraph \<Rightarrow> string list" where
  "nodes g = remdups (concat (map (\<lambda>((u, v), a). [u, v]) g))"

definition succs :: "digraph \<Rightarrow> string \<Rightarrow> string list" where
  "succs g u = map (\<lambda>((u', v), a). v) (filter (\<lambda>((u', v), a). u' = u) g)"

record schema =
  tables :: "(string \<times> table) list"
  relationship_graph :: digraph
  log_warnings :: "string list"

datatype error = ValueError string | IndexError

text \<open>\<^verbatim>\<open>Table.get_column\<close>: the first column whose name matches, case-insensitively.\<close>

definition get_column :: "table \<Rightarrow> string \<Rightarrow> column option" where
  "get_column t cname = find (\<lambda>c. lower (col_name c) = lower cname) (columns t)"

text \<open>\<^verbatim>\<open>SchemaParser.get_table\<close>: the first table whose key matches, case-insensitively.\<close>

definition get_table :: "schema \<Rightarrow> string \<Rightarrow> table option" where
  "get_table S tname =
     map_option snd (find (\<lambda>(name, t). lower name = lower tname) (tables S))"

definition has_table :: "schema \<Rightarrow> string \<Rightarrow> bool" where
  "has_table S tname = (get_table S tname \<noteq> None)"

definition has_column :: "schema \<Rightarrow> string \<Rightarrow> string \<Rightarrow> bool" where
  "has_column S tname cname =
     (case get_table S tname of None \<Rightarrow> False | Some t \<Rightarrow> get_column t cname \<noteq> None)"

subsection \<open>First pass: tables and columns\<close>

definition falsy :: "string option \<Rightarrow> bool" where
  "falsy x = (x = None \<or> x = Some [])"

definition get_or :: "string option \<Rightarrow> string \<Rightarrow> string" where
  "get_or x d = (case x of None \<Rightarrow> d | Some s \<Rightarrow> s)"

fun parse_columns :: "string \<Rightarrow> col_data list \<Rightarrow> column list \<times> string list" where
  "parse_columns tn [] = ([], [])"
| "parse_columns tn (cd # cds) =
     (let (cs, ws) = parse_columns tn cds in
      if falsy (cd_name cd)
      then (cs, (''Skipping column without name in table '' @ tn) # ws)
      else (\<lparr>col_name = get_or (cd_name cd) [], col_type = get_or (cd_type cd) ''unknown'',
             col_description = get_or (cd_description cd) [], is_primary_key = False,
             is_foreign_key = False, references = None\<rparr> # cs, ws))"

fun first_pass :: "table_data list \<Rightarrow> schema \<Rightarrow> schema" where
  "first_pass [] S = S"
| "first_pass (td # tds) S =
     (if falsy (td_name td)
      then first_pass tds (S\<lparr>log_warnings := log_warnings S @ [''Skipping table without name'']\<rparr>)
      else
        let tn = get_or (td_name td) [];
            (cs, ws) = parse_columns tn (td_columns td);
            t = \<lparr>tbl_name = tn, columns = cs, foreign_keys = td_foreign_keys td,
                 tbl_description = get_or (td_description td) []\<rparr>
        in first_pass tds (S\<lparr>tables := dict_set tn t (tables S),
                               log_warnings := log_warnings S @ ws\<rparr>))"

subsection \<open>Second pass: foreign keys and the relationship graph\<close>

text \<open>
  Marking a column mutates the first column object that \<^verbatim>\<open>get_column\<close> finds; the table
  in the dictionary is the same object, so the change shows there.
\<close>

fun mark_fk :: "string \<Rightarrow> string \<times> string \<Rightarrow> column list \<Rightarrow> column list" where
  "mark_fk cname r [] = []"
| "mark_fk cname r (c # cs) =
     (if lower (col_name c) = lower cname
      then c\<lparr>is_foreign_key := True, references := Some r\<rparr> # cs
      else c # mark_fk cname r cs)"

text \<open>
  The tests that a declaration of table \<open>t\<close> has to pass in the loop body, as one
  predicate: no field missing or empty, the referenced table a key of the dictionary, the
  originating column found in \<open>t\<close>.
\<close>

definition fk_accepted :: "schema \<Rightarrow> table \<Rightarrow> fk_data \<Rightarrow> bool" where
  "fk_accepted S t fk =
     (\<not> falsy (fk_column fk) \<and> \<not> falsy (fk_references_table fk) \<and>
      \<not> falsy (fk_references_column fk) \<and>
      get_or (fk_references_table fk) [] \<in> fst ` set (tables S) \<and>
      get_column t (get_or (fk_column fk) []) \<noteq> None)"

text \<open>The body of the inner loop of the second pass, for one declaration of table \<open>tn\<close>.\<close>

text \<open>
  Warnings go to the logger; the model records them in \<open>log_warnings\<close> (the first message
  without the dictionary's \<^verbatim>\<open>repr\<close> at its end).
\<close>

definition add_fk :: "string \<Rightarrow> fk_data \<Rightarrow> schema \<Rightarrow> schema" where
  "add_fk tn fk S =
     (case map_of (tables S) tn of
        None \<Rightarrow> S
      | Some t \<Rightarrow>
        let cn = get_or (fk_column fk) [];
            rt = get_or (fk_references_table fk) [];
            rc = get_or (fk_references_column fk) []
        in if falsy (fk_column fk) \<or> falsy (fk_references_table fk) \<or>
              falsy (fk_references_column fk)
           then S\<lparr>log_warnings := log_warnings S @
                   [''Incomplete foreign key definition in table '' @ tn]\<rparr>
           else if rt \<notin> fst ` set (tables S)
           then S\<lparr>log_warnings := log_warnings S @
                   [''Foreign key in '' @ tn @ ''.'' @ cn @
                    '' references non-existent table: '' @ rt]\<rparr>
           else if get_column t cn = None
           then S\<lparr>log_warnings := log_warnings S @
                   [''Foreign key references non-existent column: '' @ tn @ ''.'' @ cn]\<rparr>
           else S\<lparr>tables := dict_set tn (t\<lparr>columns := mark_fk cn (rt, rc) (columns t)\<rparr>) (tables S),
                  relationship_graph :=
                    add_edge rt tn \<lparr>ea_column = rc, ea_references = cn, ea_direction = ''reverse''\<rparr>
                      (add_edge tn rt \<lparr>ea_column = cn, ea_references = rc, ea_direction = ''forward''\<rparr>
                         (relationship_graph S))\<rparr>)"

fun add_fks :: "string \<Rightarrow> fk_data list \<Rightarrow> schema \<Rightarrow> schema" where
  "add_fks tn [] S = S"
| "add_fks tn (fk # fks) S = add_fks tn fks (add_fk tn fk S)"

text \<open>
  The outer loop runs over the dictionary's items; the foreign-key list of a table does
  not change during the pass.
\<close>

fun second_pass :: "string list \<Rightarrow> schema \<Rightarrow> schema" where
  "second_pass [] S = S"
| "second_pass (tn # tns) S =
     second_pass tns
       (case map_of (tables S) tn of None \<Rightarrow> S | Some t \<Rightarrow> add_fks tn (foreign_keys t) S)"

subsection \<open>Third pass: primary keys\<close>

definition identify_column :: "column \<Rightarrow> column" where
  "identify_column c =
     (if is_foreign_key c then c
      else if lower (col_name c) = ''id'' then c\<lparr>is_primary_key := True\<rparr>
      else if endswith (lower (col_name c)) ''_id'' \<and> contains ''int'' (lower (col_type c))
      then c\<lparr>is_primary_key := True\<rparr>
      else c)"

definition identify_primary_keys :: "schema \<Rightarrow> schema" where
  "identify_primary_keys S =
     S\<lparr>tables := map (\<lambda>(n, t). (n, t\<lparr>columns := map identify_column (columns t)\<rparr>)) (tables S)\<rparr>"

text \<open>\<^verbatim>\<open>SchemaParser._parse\<close> on the document's \<^verbatim>\<open>tables\<close> array (empty when missing).\<close>

definition parse :: "table_data list \<Rightarrow> error + schema" where
  "parse tables_data =
     (if tables_data = [] then Inl (ValueError ''Schema must contain 'tables' array'')
      else
        let S1 = first_pass tables_data \<lparr>tables = [], relationship_graph = [], log_warnings = []\<rparr>;
            S2 = second_pass (map fst (tables S1)) S1
        in Inr (identify_primary_keys S2))"

section \<open>Join paths (SchemaParser.get\_join\_path)\<close>

text \<open>
  \<^verbatim>\<open>networkx.shortest_path\<close> is library code: it returns the node sequence of a shortest
  directed path, and raises \<^verbatim>\<open>NetworkXNoPath\<close> (\<open>None\<close> here) when there is none. It is
  modelled by a breadth-first search over the successor lists; which one of several
  equally short paths the library picks is not modelled. The queue holds the paths found
  so far, each reversed.
\<close>

function bfs :: "digraph \<Rightarrow> string list \<Rightarrow> string list list \<Rightarrow> string \<Rightarrow> string list option" where
  "bfs g visited [] t = None"
| "bfs g visited ([] # ps) t = bfs g visited ps t"
| "bfs g visited ((u # p) # ps) t =
     (if u = t then Some (rev (u # p))
      else
        let ns = filter (\<lambda>v. v \<notin> set visited) (remdups (succs g u))
        in bfs g (visited @ ns) (ps @ map (\<lambda>v. v # u # p) ns) t)"
  by pat_completeness auto
termination
proof (relation "measures [\<lambda>(g, visited, q, t). card (set (nodes g) - set visited),
    \<lambda>(g, visited, q, t). length q]", goal_cases)
  case 1
  show ?case by simp
next
  case (2 g visited ps t)
  show ?case by simp
next
  case (3 g visited u p ps t ns)
  have sub: "set (succs g u) \<subseteq> set (nodes g)"
    by (force simp: succs_def nodes_def)
  show ?case
  proof (cases "ns = []")
    case True
    then show ?thesis by simp
  next
    case False
    then obtain v where v: "v \<in> set ns" by (cases ns) auto
    with 3 sub have "v \<in> set (nodes g) - set visited" by auto
    moreover have "v \<notin> set (nodes g) - set (visited @ ns)" using v by simp
    ultimately have "set (nodes g) - set (visited @ ns) \<subset> set (nodes g) - set visited"
      by auto
    then have "card (set (nodes g) - set (visited @ ns)) < card (set (nodes g) - set visited)"
      by (intro psubset_card_mono) auto
    then show ?thesis by simp
  qed
qed

definition shortest_path :: "digraph \<Rightarrow> string \<Rightarrow> string \<Rightarrow> string list option" where
  "shortest_path g s t = bfs g [s] [[s]] t"

text \<open>The loop over consecutive nodes of the path.\<close>

fun hops :: "digraph \<Rightarrow> string list \<Rightarrow> (string \<times> string \<times> string \<times> string) list" where
  "hops g (a # b # rest) =
     (case get_edge_data g a b of
        None \<Rightarrow> hops g (b # rest)
      | Some e \<Rightarrow> (a, ea_column e, b, ea_references e) # hops g (b # rest))"
| "hops g _ = []"

text \<open>The normalisation loop does not stop at a match: the last matching key wins.\<close>

fun normalize :: "string list \<Rightarrow> string \<Rightarrow> string option \<Rightarrow> string option" where
  "normalize [] tn r = r"
| "normalize (name # names) tn r =
     normalize names tn (if lower name = lower tn then Some name else r)"

definition get_join_path ::
  "schema \<Rightarrow> string \<Rightarrow> string \<Rightarrow> (string \<times> string \<times> string \<times> string) list option" where
  "get_join_path S table1 table2 =
     (if table1 = table2 then Some []
      else
        let t1 = normalize (map fst (tables S)) table1 None;
            t2 = normalize (map fst (tables S)) table2 None
        in if falsy t1 \<or> falsy t2 then None
           else
             let a = get_or t1 []; b = get_or t2 [] in
             if a \<notin> set (nodes (relationship_graph S)) \<or> b \<notin> set (nodes (relationship_graph S))
             then None
             else
               (case shortest_path (relationship_graph S) a b of
                  None \<Rightarrow> None
                | Some path_nodes \<Rightarrow>
                    let join_path = hops (relationship_graph S) path_nodes
                    in if join_path = [] then None else Some join_path))"

section \<open>View specifications (models.py)\<close>

record join_spec =
  join_type :: string
  join_table :: string
  join_on :: string

record query_spec =
  select :: "string list"
  from_table :: string
  joins :: "join_spec list"
  where_conds :: "string list option"
  group_by :: "string list option"
  having :: "string list option"
  order_by :: "string list option"

record view =
  view_name :: string
  view_description :: string
  query :: query_spec

record validation_result =
  is_valid :: bool
  vr_view_name :: string
  errors :: "string list"
  warnings :: "string list"
  sql :: "string option"

text \<open>
  A \<open>join_spec\<close> is a join as the validator receives it: \<open>join_type\<close> holds the type that
  the constructor has already checked and turned to upper case.
\<close>

text \<open>\<^verbatim>\<open>ViewDefinition.validate_view_name\<close>.\<close>

definition validate_view_name :: "string \<Rightarrow> error + string" where
  "validate_view_name v0 =
     (let v1 = strip (lower v0);
          v2 = replace_char CHR ''-'' CHR ''_'' (replace_char CHR '' '' CHR ''_'' v1);
          v3 = (if \<not> isalnum (remove_char CHR ''_'' (remove_char CHR ''_'' v2))
                then filter (\<lambda>c. isalnum_char c \<or> c = CHR ''_'') v2
                else v2)
      in if v3 = [] then Inl (ValueError ''View name cannot be empty after sanitization'')
         else Inr v3)"

text \<open>
  The sanitisation as the specification words it: lower-case, spaces and hyphens to
  underscores, every other character that is not alphanumeric or an underscore removed.
\<close>

definition spec_sanitize :: "string \<Rightarrow> error + string" where
  "spec_sanitize v =
     (let r = filter (\<lambda>c. isalnum_char c \<or> c = CHR ''_'')
                (map (\<lambda>c. if c = CHR '' '' \<or> c = CHR ''-'' then CHR ''_'' else c) (lower v))
      in if r = [] then Inl (ValueError ''View name cannot be empty after sanitization'')
         else Inr r)"

section \<open>Validator (validator.py)\<close>

text \<open>
  What the validator takes from outside the schema and the view: the two configuration
  values, and the order in which Python iterates over a \<^verbatim>\<open>set\<close> of strings, which the
  language leaves open. \<open>set_order\<close> maps the elements in insertion order to the order of
  iteration. The similarity score is the floating-point quotient of two counts; the model
  keeps the two counts, and takes the comparison with \<^verbatim>\<open>min_semantic_score\<close> and the
  formatting \<^verbatim>\<open>{score:.3f}\<close> as parameters.
\<close>

record env =
  enable_semantic :: bool
  score_below_min :: "nat \<times> nat \<Rightarrow> bool"
  format_score :: "nat \<times> nat \<Rightarrow> string"
  set_order :: "string list \<Rightarrow> string list"

text \<open>\<^verbatim>\<open>_extract_table_name\<close>: \<^verbatim>\<open>table_spec.split()[0].strip()\<close>.\<close>

definition extract_table_name :: "string \<Rightarrow> error + string" where
  "extract_table_name table_spec =
     (case split_ws table_spec of [] \<Rightarrow> Inl IndexError | w # ws \<Rightarrow> Inr (strip w))"

text \<open>Adding to a set: nothing changes when the element is present.\<close>

definition set_add :: "string \<Rightarrow> string list \<Rightarrow> string list" where
  "set_add x xs = (if x \<in> set xs then xs else xs @ [x])"

definition quoted :: "string \<Rightarrow> string" where
  "quoted s = [CHR 0x27] @ s @ [CHR 0x27]"

subsection \<open>Join path validation\<close>

definition validate_join_path ::
  "schema \<Rightarrow> string \<Rightarrow> string \<Rightarrow> join_spec \<Rightarrow> nat \<Rightarrow> string list \<times> string list" where
  "validate_join_path S base_table jt j join_num =
     (case get_join_path S base_table jt of
        None \<Rightarrow>
          ([''Join #'' @ show_nat join_num @ '': No foreign key path exists between '' @
            quoted base_table @ '' and '' @ quoted jt], [])
      | Some path \<Rightarrow>
          (case split_on CHR ''='' (join_on j) of
             [l, r] \<Rightarrow>
               (let left_parts = split_on CHR ''.'' (strip l);
                    right_parts = split_on CHR ''.'' (strip r)
                in if length left_parts \<noteq> 2 \<or> length right_parts \<noteq> 2
                   then ([], [''Join #'' @ show_nat join_num @
                              '': Join condition should use qualified names '' @
                              ''(table.column = table.column)''])
                   else ([], []))
           | _ \<Rightarrow>
               ([''Join #'' @ show_nat join_num @ '': Invalid join condition format: '' @
                 quoted (join_on j) @ ''. Expected format: '' @
                 quoted ''table.column = table.column''], [])))"

subsection \<open>Semantic relevance\<close>

text \<open>\<^verbatim>\<open>re.findall(r'[a-z0-9]+', text)\<close>: the maximal runs of lower-case letters and digits.\<close>

fun runs_acc :: "(char \<Rightarrow> bool) \<Rightarrow> string \<Rightarrow> string \<Rightarrow> string list" where
  "runs_acc P cur [] = (if cur = [] then [] else [cur])"
| "runs_acc P cur (x # xs) =
     (if P x then runs_acc P (cur @ [x]) xs
      else if cur = [] then runs_acc P [] xs else cur # runs_acc P [] xs)"

definition stop_words :: "string set" where
  "stop_words = {''the'', ''a'', ''an'', ''and'', ''or'', ''but'', ''in'', ''on'', ''at'', ''to'', ''for''}"

definition tokenize :: "string \<Rightarrow> string set" where
  "tokenize text =
     {t \<in> set (runs_acc (\<lambda>c. is_lower c \<or> is_digit c) [] (lower text)).
        length t > 2 \<and> t \<notin> stop_words}"

definition table_tokens :: "table \<Rightarrow> string set" where
  "table_tokens t =
     (\<Union>c \<in> set (columns t).
        tokenize (col_name c) \<union>
        (if col_description c \<noteq> [] then tokenize (col_description c) else {}))"

text \<open>The score as the pair of counts (intersection, union); \<open>(0, 1)\<close> stands for \<open>0.0\<close>.\<close>

definition semantic_score :: "table \<Rightarrow> table \<Rightarrow> nat \<times> nat" where
  "semantic_score t1 t2 =
     (let tokens1 = table_tokens t1; tokens2 = table_tokens t2 in
      if tokens1 = {} \<or> tokens2 = {} then (0, 1)
      else (card (tokens1 \<inter> tokens2), card (tokens1 \<union> tokens2)))"

definition validate_semantic_relevance ::
  "env \<Rightarrow> schema \<Rightarrow> string \<Rightarrow> string \<Rightarrow> nat \<Rightarrow> string list" where
  "validate_semantic_relevance E S table1 table2 join_num =
     (case (get_table S table1, get_table S table2) of
        (Some t1, Some t2) \<Rightarrow>
          (let score = semantic_score t1 t2 in
           if score_below_min E score
           then [''Join #'' @ show_nat join_num @ '': Low semantic similarity ('' @
                 format_score E score @ '') between '' @ quoted table1 @ '' and '' @
                 quoted table2 @ ''. Tables may not be semantically related.'']
           else [])
      | _ \<Rightarrow> [])"

subsection \<open>References to columns\<close>

text \<open>
  The loop \<^verbatim>\<open>for table in tables\<close> that the three clause validators share, over the
  tables in their order of iteration: \<open>None\<close> when the loop ends with \<^verbatim>\<open>found\<close> false,
  and the errors appended before the \<^verbatim>\<open>break\<close> otherwise.
\<close>

fun lookup_ref :: "schema \<Rightarrow> string \<Rightarrow> string \<Rightarrow> string \<Rightarrow> string list \<Rightarrow> string list option" where
  "lookup_ref S clause table_or_alias column [] = None"
| "lookup_ref S clause table_or_alias column (t # ts) =
     (if lower t = lower table_or_alias \<or> has_table S table_or_alias
      then Some (if \<not> has_column S t column
                 then [clause @ '': Column '' @ quoted column @ '' does not exist in table '' @
                       quoted t]
                 else [])
      else lookup_ref S clause table_or_alias column ts)"

definition check_ref :: "schema \<Rightarrow> string \<Rightarrow> string list \<Rightarrow> string \<Rightarrow> string \<Rightarrow> string list" where
  "check_ref S clause ts table_or_alias column =
     (case lookup_ref S clause table_or_alias column ts of
        None \<Rightarrow> [clause @ '': Unknown table reference '' @ quoted table_or_alias]
      | Some es \<Rightarrow> es)"

text \<open>
  One expression of the select list. \<^verbatim>\<open>column.split()[0]\<close> raises \<^verbatim>\<open>IndexError\<close> when
  nothing but whitespace follows the first dot.
\<close>

definition validate_select_expr :: "schema \<Rightarrow> string list \<Rightarrow> string \<Rightarrow> error + string list" where
  "validate_select_expr S ts expr =
     (if CHR ''.'' \<in> set expr
      then (case split_on CHR ''.'' expr of
              p0 # p1 # rest \<Rightarrow>
                (case split_ws (strip p1) of
                   [] \<Rightarrow> Inl IndexError
                 | w # ws \<Rightarrow> Inr (check_ref S ''SELECT'' ts (strip p0) (strip w)))
            | _ \<Rightarrow> Inr [])
      else Inr [])"

fun validate_select_loop :: "schema \<Rightarrow> string list \<Rightarrow> string list \<Rightarrow> error + string list" where
  "validate_select_loop S ts [] = Inr []"
| "validate_select_loop S ts (expr # exprs) =
     (case validate_select_expr S ts expr of
        Inl e \<Rightarrow> Inl e
      | Inr es \<Rightarrow>
          (case validate_select_loop S ts exprs of
             Inl e \<Rightarrow> Inl e
           | Inr es' \<Rightarrow> Inr (es @ es')))"

definition validate_select_columns ::
  "env \<Rightarrow> schema \<Rightarrow> string list \<Rightarrow> string list \<Rightarrow> error + string list" where
  "validate_select_columns E S select_list tbls =
     validate_select_loop S (set_order E tbls) select_list"

text \<open>
  \<^verbatim>\<open>re.findall(r'(\w+)\.(\w+)', condition)\<close>. A match starts at a maximal run of word
  characters that a dot and a word character follow, takes the whole run after the dot,
  and the search goes on behind it. The condition is cut into word runs, dots and other
  characters, and the matches are read off that sequence.
\<close>

datatype tok = TWord string | TDot | TOther

fun toks_acc :: "string \<Rightarrow> string \<Rightarrow> tok list" where
  "toks_acc cur [] = (if cur = [] then [] else [TWord cur])"
| "toks_acc cur (x # xs) =
     (if is_word_char x then toks_acc (cur @ [x]) xs
      else (if cur = [] then [] else [TWord cur]) @
           (if x = CHR ''.'' then TDot else TOther) # toks_acc [] xs)"

fun match_refs :: "tok list \<Rightarrow> (string \<times> string) list" where
  "match_refs (TWord a # TDot # TWord b # rest) = (a, b) # match_refs rest"
| "match_refs (x # rest) = match_refs rest"
| "match_refs [] = []"

definition findall_refs :: "string \<Rightarrow> (string \<times> string) list" where
  "findall_refs condition = match_refs (toks_acc [] condition)"

definition validate_conditions ::
  "env \<Rightarrow> schema \<Rightarrow> string list \<Rightarrow> string list \<Rightarrow> string \<Rightarrow> string list" where
  "validate_conditions E S conditions tbls clause_name =
     concat (map (\<lambda>condition.
        concat (map (\<lambda>(table_or_alias, column).
           check_ref S clause_name (set_order E tbls) table_or_alias column)
          (findall_refs condition))) conditions)"

text \<open>
  \<^verbatim>\<open>re.sub(r'\s+(DESC|ASC)$', '', col_expr, flags=re.IGNORECASE)\<close>: the keyword must end
  the string, or stand before a newline that ends it, and needs whitespace before it; the
  whole run of whitespace goes with it. The test works on the reversed string. Under
  \<^verbatim>\<open>IGNORECASE\<close> a letter of the keyword matches itself and its lower-case letter, and
  no other code point below 256; \<open>upper_char\<close> takes the ASCII lower-case letters to upper
  case and leaves the rest.
\<close>

definition upper_char :: "char \<Rightarrow> char" where
  "upper_char c = (if is_lower c then char_of (of_char c - (32 :: nat)) else c)"

definition kw_removed :: "string \<Rightarrow> string option" where
  "kw_removed r =
     (let l = map upper_char r in
      if take 4 l = ''CSED'' \<and> drop 4 r \<noteq> [] \<and> is_space (hd (drop 4 r))
      then Some (dropWhile is_space (drop 4 r))
      else if take 3 l = ''CSA'' \<and> drop 3 r \<noteq> [] \<and> is_space (hd (drop 3 r))
      then Some (dropWhile is_space (drop 3 r))
      else None)"

definition strip_direction :: "string \<Rightarrow> string" where
  "strip_direction col_expr =
     (let r = rev col_expr in
      case kw_removed r of
        Some r' \<Rightarrow> rev r'
      | None \<Rightarrow>
          (case r of
             [] \<Rightarrow> col_expr
           | c # r1 \<Rightarrow>
               if c = CHR 0x0A
               then (case kw_removed r1 of Some r' \<Rightarrow> rev r' @ [CHR 0x0A] | None \<Rightarrow> col_expr)
               else col_expr))"

definition validate_column_expr :: "schema \<Rightarrow> string list \<Rightarrow> string \<Rightarrow> string \<Rightarrow> string list" where
  "validate_column_expr S ts clause_name col_expr0 =
     (let col_expr = strip (strip_direction col_expr0) in
      if CHR ''.'' \<in> set col_expr
      then (case split_on CHR ''.'' col_expr of
              p0 # p1 # rest \<Rightarrow> check_ref S clause_name ts (strip p0) (strip p1)
            | _ \<Rightarrow> [])
      else [])"

definition validate_column_list ::
  "env \<Rightarrow> schema \<Rightarrow> string list \<Rightarrow> string list \<Rightarrow> string \<Rightarrow> string list" where
  "validate_column_list E S cols tbls clause_name =
     concat (map (validate_column_expr S (set_order E tbls) clause_name) cols)"

subsection \<open>SQL text\<close>

definition truthy :: "string list option \<Rightarrow> bool" where
  "truthy x = (case x of None \<Rightarrow> False | Some xs \<Rightarrow> xs \<noteq> [])"

definition the_list :: "string list option \<Rightarrow> string list" where
  "the_list x = (case x of None \<Rightarrow> [] | Some xs \<Rightarrow> xs)"

definition compile_to_sql :: "view \<Rightarrow> error + string" where
  "compile_to_sql v =
     (let q = query v;
          sql_parts =
            [''SELECT '' @ join '', '' (select q)] @
            [''FROM '' @ from_table q] @
            map (\<lambda>j. join_type j @ '' JOIN '' @ join_table j @ '' ON '' @ join_on j) (joins q) @
            (if truthy (where_conds q) then [''WHERE '' @ join '' AND '' (the_list (where_conds q))] else []) @
            (if truthy (group_by q) then [''GROUP BY '' @ join '', '' (the_list (group_by q))] else []) @
            (if truthy (having q) then [''HAVING '' @ join '' AND '' (the_list (having q))] else []) @
            (if truthy (order_by q) then [''ORDER BY '' @ join '', '' (the_list (order_by q))] else [])
      in Inr (join [CHR 0x0A] sql_parts @ '';''))"

subsection \<open>The validation of a view\<close>

text \<open>The loop over the joins: the set of tables, the errors and the warnings so far.\<close>

fun validate_joins ::
  "env \<Rightarrow> schema \<Rightarrow> string \<Rightarrow> nat \<Rightarrow> join_spec list \<Rightarrow>
   string list \<times> string list \<times> string list \<Rightarrow> error + (string list \<times> string list \<times> string list)" where
  "validate_joins E S base i [] st = Inr st"
| "validate_joins E S base i (j # js) (tq, errs, warns) =
     (case extract_table_name (join_table j) of
        Inl e \<Rightarrow> Inl e
      | Inr jt \<Rightarrow>
          if \<not> has_table S jt
          then validate_joins E S base (i + 1) js
                 (set_add jt tq,
                  errs @ [''Join #'' @ show_nat (i + 1) @ '': Table '' @ quoted jt @
                          '' does not exist in schema''],
                  warns)
          else
            let (join_errors, join_warnings) = validate_join_path S base jt j (i + 1);
                sem_warnings =
                  (if enable_semantic E then validate_semantic_relevance E S base jt (i + 1)
                   else [])
            in validate_joins E S base (i + 1) js
                 (set_add jt tq, errs @ join_errors, warns @ join_warnings @ sem_warnings))"

definition error_text :: "error \<Rightarrow> string" where
  "error_text e = (case e of ValueError m \<Rightarrow> m | IndexError \<Rightarrow> ''list index out of range'')"

text \<open>
  \<^verbatim>\<open>validate_view\<close>, with the method that compiles the SQL text as a parameter. An
  exception that the method does not catch (\<^verbatim>\<open>IndexError\<close> from a blank table
  specification or a blank column) ends the call: \<open>Inl\<close>.
\<close>

definition validate_view_with ::
  "(view \<Rightarrow> error + string) \<Rightarrow> env \<Rightarrow> schema \<Rightarrow> view \<Rightarrow> error + validation_result" where
  "validate_view_with compile E S v =
     (let q = query v in
      case extract_table_name (from_table q) of
        Inl e \<Rightarrow> Inl e
      | Inr base_table \<Rightarrow>
          if \<not> has_table S base_table
          then Inr \<lparr>is_valid = False, vr_view_name = view_name v,
                    errors = [''Base table '' @ quoted base_table @ '' does not exist in schema''],
                    warnings = [], sql = None\<rparr>
          else
            (case validate_joins E S base_table 0 (joins q) ([base_table], [], []) of
               Inl e \<Rightarrow> Inl e
             | Inr (tables_in_query, errs1, warns) \<Rightarrow>
                 (case validate_select_columns E S (select q) tables_in_query of
                    Inl e \<Rightarrow> Inl e
                  | Inr select_errors \<Rightarrow>
                      let errs2 = errs1 @ select_errors;
                          errs3 = errs2 @
                            (if truthy (where_conds q)
                             then validate_conditions E S (the_list (where_conds q)) tables_in_query ''WHERE''
                             else []);
                          errs4 = errs3 @
                            (if truthy (group_by q)
                             then validate_column_list E S (the_list (group_by q)) tables_in_query ''GROUP BY''
                             else []);
                          errs5 = errs4 @
                            (if truthy (having q)
                             then validate_conditions E S (the_list (having q)) tables_in_query ''HAVING''
                             else []);
                          errs6 = errs5 @
                            (if truthy (order_by q)
                             then validate_column_list E S (the_list (order_by q)) tables_in_query ''ORDER BY''
                             else []);
                          (sql_text, errs7) =
                            (if errs6 = []
                             then (case compile v of
                                     Inr text \<Rightarrow> (Some text, errs6)
                                   | Inl e \<Rightarrow> (None, errs6 @ [''SQL compilation failed: '' @ error_text e]))
                             else (None, errs6))
                      in Inr \<lparr>is_valid = (length errs7 = 0), vr_view_name = view_name v,
                              errors = errs7, warnings = warns, sql = sql_text\<rparr>)))"

definition validate_view :: "env \<Rightarrow> schema \<Rightarrow> view \<Rightarrow> error + validation_result" where
  "validate_view E S v = validate_view_with compile_to_sql E S v"

section \<open>Deduplication (deduplicate\_views)\<close>

text \<open>The signature of a view; \<^verbatim>\<open>split()[0]\<close> raises on a blank table specification.\<close>

definition first_word :: "string \<Rightarrow> error + string" where
  "first_word s = (case split_ws s of [] \<Rightarrow> Inl IndexError | w # ws \<Rightarrow> Inr w)"

fun join_tables :: "join_spec list \<Rightarrow> error + string set" where
  "join_tables [] = Inr {}"
| "join_tables (j # js) =
     (case first_word (join_table j) of
        Inl e \<Rightarrow> Inl e
      | Inr w \<Rightarrow> (case join_tables js of Inl e \<Rightarrow> Inl e | Inr ws \<Rightarrow> Inr (insert w ws)))"

definition signature :: "view \<Rightarrow> error + (string set \<times> string list)" where
  "signature v =
     (case first_word (from_table (query v)) of
        Inl e \<Rightarrow> Inl e
      | Inr w \<Rightarrow>
          (case join_tables (joins (query v)) of
             Inl e \<Rightarrow> Inl e
           | Inr ws \<Rightarrow> Inr (insert w ws, sort (select (query v)))))"

fun dedup_loop ::
  "view list \<Rightarrow> (string set \<times> string list) set \<Rightarrow> view list \<Rightarrow> error + view list" where
  "dedup_loop [] seen_signatures unique_views = Inr unique_views"
| "dedup_loop (v # vs) seen_signatures unique_views =
     (case signature v of
        Inl e \<Rightarrow> Inl e
      | Inr sg \<Rightarrow>
          if sg \<notin> seen_signatures
          then dedup_loop vs (insert sg seen_signatures) (unique_views @ [v])
          else dedup_loop vs seen_signatures unique_views)"

definition deduplicate_views :: "view list \<Rightarrow> error + view list" where
  "deduplicate_views views = dedup_loop views {} []"

section \<open>Scenarios\<close>

text \<open>The schema that \<^verbatim>\<open>SchemaParser(doc)\<close> builds, for a document that it accepts.\<close>

definition schema_of :: "table_data list \<Rightarrow> schema" where
  "schema_of tds =
     (case parse tds of
        Inr S \<Rightarrow> S
      | Inl e \<Rightarrow> \<lparr>tables = [], relationship_graph = [], log_warnings = []\<rparr>)"

definition plain_col :: "string \<Rightarrow> col_data" where
  "plain_col n = \<lparr>cd_name = Some n, cd_type = None, cd_description = None\<rparr>"

definition fk_decl :: "string \<Rightarrow> string \<Rightarrow> string \<Rightarrow> fk_data" where
  "fk_decl c rt rc =
     \<lparr>fk_column = Some c, fk_references_table = Some rt, fk_references_column = Some rc\<rparr>"

text \<open>
  The schema of the orders scenario: orders with its id and the foreign key customer\_id
  to customers.id, and customers with its id.
\<close>

definition orders_doc :: "table_data list" where
  "orders_doc =
     [\<lparr>td_name = Some ''orders'', td_description = None,
       td_columns = [plain_col ''id'', plain_col ''customer_id''],
       td_foreign_keys = [fk_decl ''customer_id'' ''customers'' ''id'']\<rparr>,
      \<lparr>td_name = Some ''customers'', td_description = None,
       td_columns = [plain_col ''id''], td_foreign_keys = []\<rparr>]"

definition orders_view :: view where
  "orders_view =
     \<lparr>view_name = ''customer_orders'', view_description = [],
      query = \<lparr>select = [''orders.id'', ''customers.id''], from_table = ''orders'',
               joins = [\<lparr>join_type = ''INNER'', join_table = ''customers'',
                         join_on = ''orders.customer_id = customers.id''\<rparr>],
               where_conds = None, group_by = None, having = None, order_by = None\<rparr>\<rparr>"

definition env_warning :: env where
  "env_warning = \<lparr>enable_semantic = True, score_below_min = (\<lambda>s. True),
                   format_score = (\<lambda>s. ''0.000''), set_order = (\<lambda>xs. xs)\<rparr>"

definition env_quiet :: env where
  "env_quiet = \<lparr>enable_semantic = False, score_below_min = (\<lambda>s. False),
                 format_score = (\<lambda>s. ''0.000''), set_order = (\<lambda>xs. xs)\<rparr>"

text \<open>A view that selects from a table which it neither reads from nor joins.\<close>

definition misplaced_view :: view where
  "misplaced_view =
     \<lparr>view_name = ''misplaced'', view_description = [],
      query = \<lparr>select = [''customers.id''], from_table = ''orders'', joins = [],
               where_conds = None, group_by = None, having = None, order_by = None\<rparr>\<rparr>"

text \<open>Orders and customers, and a table without any foreign-key relationship.\<close>

definition shop_doc :: "table_data list" where
  "shop_doc =
     [\<lparr>td_name = Some ''orders'', td_description = None,
       td_columns = [plain_col ''id'', plain_col ''customer_id''],
       td_foreign_keys = [fk_decl ''customer_id'' ''customers'' ''id'']\<rparr>,
      \<lparr>td_name = Some ''customers'', td_description = None,
       td_columns = [plain_col ''id''], td_foreign_keys = []\<rparr>,
      \<lparr>td_name = Some ''products'', td_description = None,
       td_columns = [plain_col ''id''], td_foreign_keys = []\<rparr>]"




text \<open>Three views, the third with the signature of the first.\<close>

definition three_views :: "view list" where
  "three_views = [orders_view, misplaced_view, orders_view\<lparr>view_name := ''orders_again''\<rparr>]"

section \<open>Auxiliary notions for the proofs\<close>

text \<open>The errors of the clauses after the select list, in the order they are appended.\<close>

definition later_errors :: "env \<Rightarrow> schema \<Rightarrow> query_spec \<Rightarrow> string list \<Rightarrow> string list" where
  "later_errors E S q tq =
     (if truthy (where_conds q)
      then validate_conditions E S (the_list (where_conds q)) tq ''WHERE'' else []) @
     (if truthy (group_by q)
      then validate_column_list E S (the_list (group_by q)) tq ''GROUP BY'' else []) @
     (if truthy (having q)
      then validate_conditions E S (the_list (having q)) tq ''HAVING'' else []) @
     (if truthy (order_by q)
      then validate_column_list E S (the_list (order_by q)) tq ''ORDER BY'' else [])"


text \<open>
  The foreign-key pass as a fold over the declarations, and what it leaves invariant: the
  names of the tables and columns and the declarations themselves (\<open>skel\<close>). \<open>accepted\<close>
  is the test that \<^verbatim>\<open>_parse\<close> applies to a declaration of a table; \<open>marked\<close> are the
  lower-cased names of the columns flagged as foreign keys.
\<close>

abbreviation fk_cn :: "fk_data \<Rightarrow> string" where "fk_cn fk \<equiv> get_or (fk_column fk) []"

abbreviation fk_rt :: "fk_data \<Rightarrow> string" where "fk_rt fk \<equiv> get_or (fk_references_table fk) []"

abbreviation fk_rc :: "fk_data \<Rightarrow> string" where "fk_rc fk \<equiv> get_or (fk_references_column fk) []"

definition skel :: "schema \<Rightarrow> (string \<times> string list \<times> fk_data list) list" where
  "skel S = map (\<lambda>(n, t). (n, map col_name (columns t), foreign_keys t)) (tables S)"

definition accepted :: "schema \<Rightarrow> string \<times> fk_data \<Rightarrow> bool" where
  "accepted S p =
     (case map_of (tables S) (fst p) of None \<Rightarrow> False | Some t \<Rightarrow> fk_accepted S t (snd p))"

definition run_fks :: "(string \<times> fk_data) list \<Rightarrow> schema \<Rightarrow> schema" where
  "run_fks w S = fold (\<lambda>p. add_fk (fst p) (snd p)) w S"

definition work_list :: "schema \<Rightarrow> string list \<Rightarrow> (string \<times> fk_data) list" where
  "work_list S tns =
     concat (map (\<lambda>tn. case map_of (tables S) tn of
                          None \<Rightarrow> [] | Some t \<Rightarrow> map (Pair tn) (foreign_keys t)) tns)"

definition marked :: "column list \<Rightarrow> string set" where
  "marked cs = set (map (\<lambda>c. lower (col_name c)) (filter is_foreign_key cs))"

definition edge_keys :: "digraph \<Rightarrow> (string \<times> string) set" where
  "edge_keys g = fst ` set g"

definition marked_at :: "schema \<Rightarrow> string \<Rightarrow> string set" where
  "marked_at S n = (case map_of (tables S) n of None \<Rightarrow> {} | Some t \<Rightarrow> marked (columns t))"

definition fk_edges :: "string \<times> fk_data \<Rightarrow> (string \<times> string) set" where
  "fk_edges p = {(fst p, fk_rt (snd p)), (fk_rt (snd p), fst p)}"

definition declared :: "schema \<Rightarrow> (string \<times> fk_data) list" where
  "declared S = concat (map (\<lambda>(tn, t). map (Pair tn) (foreign_keys t)) (tables S))"

definition empty_schema :: schema where
  "empty_schema = \<lparr>tables = [], relationship_graph = [], log_warnings = []\<rparr>"




text \<open>
  The first occurrences, as the specification words the result of deduplication: the
  elements, in their order, that no earlier element agrees with under \<open>f\<close>.
\<close>

definition first_occurrences :: "('a \<Rightarrow> 'b) \<Rightarrow> 'a list \<Rightarrow> 'a list" where
  "first_occurrences f xs =
     map (\<lambda>i. xs ! i) (filter (\<lambda>i. \<forall>j<i. f (xs ! j) \<noteq> f (xs ! i)) [0..<length xs])"

text \<open>The test of the loop: the signature of the view is not among those seen.\<close>

definition unseen :: "(string set \<times> string list) set \<Rightarrow> view \<Rightarrow> bool" where
  "unseen seen v = (case signature v of Inl e \<Rightarrow> True | Inr sg \<Rightarrow> sg \<notin> seen)"

text \<open>
  For the breadth-first search: the nodes at the head of the queued paths, node sequences
  whose consecutive pairs are edges, and when two normalised table names are joined by a
  path of at least one edge.
\<close>

definition heads :: "string list list \<Rightarrow> string set" where
  "heads q = {u. \<exists>p. u # p \<in> set q}"

fun chain :: "digraph \<Rightarrow> string list \<Rightarrow> bool" where
  "chain g [] = True"
| "chain g [a] = True"
| "chain g (a # b # rest) = ((a, b) \<in> edge_keys g \<and> chain g (b # rest))"

definition connects :: "schema \<Rightarrow> string option \<Rightarrow> string option \<Rightarrow> bool" where
  "connects S t1 t2 =
     (\<not> falsy t1 \<and> \<not> falsy t2 \<and>
      get_or t1 [] \<in> set (nodes (relationship_graph S)) \<and>
      get_or t2 [] \<in> set (nodes (relationship_graph S)) \<and>
      get_or t1 [] \<noteq> get_or t2 [] \<and>
      (get_or t1 [], get_or t2 []) \<in> (edge_keys (relationship_graph S))\<^sup>*)"

section \<open>View names\<close>

lemma filter_word_id:
  assumes "isalnum (remove_char CHR ''_'' (remove_char CHR ''_'' s))"
  shows "filter (\<lambda>c. isalnum_char c \<or> c = CHR ''_'') s = s"
proof -
  from assms have "\<forall>c \<in> set s. c \<noteq> CHR ''_'' \<longrightarrow> isalnum_char c"
    by (auto simp: isalnum_def remove_char_def list_all_iff)
  then show ?thesis by (induction s) auto
qed


text \<open>
  C9, as amended: the sanitisation lower-cases the name, removes leading and trailing
  whitespace, replaces the remaining spaces and hyphens by underscores and drops every
  character that is neither alphanumeric nor an underscore; an empty result is a
  \<^verbatim>\<open>ValueError\<close>, and \<^verbatim>\<open>Customer Orders!!\<close> becomes \<^verbatim>\<open>customer_orders\<close>. Lower case,
  whitespace and alphanumeric are Python's notions (\<^verbatim>\<open>str.lower\<close>, \<^verbatim>\<open>str.strip\<close>,
  \<^verbatim>\<open>str.isalnum\<close>), here on names of code points 0 to 255.
\<close>

theorem validate_view_name_sanitizes:
  "validate_view_name v =
     (let r = filter (\<lambda>c. isalnum_char c \<or> c = CHR ''_'')
                (map (\<lambda>c. if c = CHR '' '' \<or> c = CHR ''-'' then CHR ''_'' else c)
                   (strip (lower v)))
      in if r = [] then Inl (ValueError ''View name cannot be empty after sanitization'')
         else Inr r)
   \<and> validate_view_name ''Customer Orders!!'' = Inr ''customer_orders''"
proof
  let ?u = "map (\<lambda>c. if c = CHR '' '' \<or> c = CHR ''-'' then CHR ''_'' else c) (strip (lower v))"
  have m: "replace_char CHR ''-'' CHR ''_'' (replace_char CHR '' '' CHR ''_'' s) =
      map (\<lambda>c. if c = CHR '' '' \<or> c = CHR ''-'' then CHR ''_'' else c) s" for s
    by (simp add: replace_char_def)
  have f: "isalnum (remove_char CHR ''_'' (remove_char CHR ''_'' ?u)) \<Longrightarrow>
      filter (\<lambda>c. isalnum_char c \<or> c = CHR ''_'') ?u = ?u"
    by (rule filter_word_id)
  show "validate_view_name v =
     (let r = filter (\<lambda>c. isalnum_char c \<or> c = CHR ''_'') ?u
      in if r = [] then Inl (ValueError ''View name cannot be empty after sanitization'')
         else Inr r)"
    unfolding validate_view_name_def Let_def m
    using f by auto
  show "validate_view_name ''Customer Orders!!'' = Inr ''customer_orders''"
    by code_simp
qed

text \<open>
  Witness for C9: a name with a leading blank, a hyphen and punctuation; and two names
  with letters above 127, which are lower-cased and kept (code point 201 is the capital
  E with acute accent, 233 the small one).
\<close>

theorem validate_view_name_sanitizes_witness:
  "validate_view_name '' Top-10 Sales!'' = Inr ''top_10_sales'' \<and>
   validate_view_name (''Caf'' @ [CHR 0xE9] @ '' 1'') = Inr (''caf'' @ [CHR 0xE9] @ ''_1'') \<and>
   validate_view_name [CHR 0xC9] = Inr [CHR 0xE9]"
proof (intro conjI)
  have "validate_view_name '' Top-10 Sales!'' =
     (let r = filter (\<lambda>c. isalnum_char c \<or> c = CHR ''_'')
                (map (\<lambda>c. if c = CHR '' '' \<or> c = CHR ''-'' then CHR ''_'' else c)
                   (strip (lower '' Top-10 Sales!'')))
      in if r = [] then Inl (ValueError ''View name cannot be empty after sanitization'')
         else Inr r)"
    using validate_view_name_sanitizes [of "'' Top-10 Sales!''"] by (rule conjunct1)
  also have "\<dots> = Inr ''top_10_sales''"
    by code_simp
  finally show "validate_view_name '' Top-10 Sales!'' = Inr ''top_10_sales''" .
  have "validate_view_name [CHR 0xC9] =
     (let r = filter (\<lambda>c. isalnum_char c \<or> c = CHR ''_'')
                (map (\<lambda>c. if c = CHR '' '' \<or> c = CHR ''-'' then CHR ''_'' else c)
                   (strip (lower [CHR 0xC9])))
      in if r = [] then Inl (ValueError ''View name cannot be empty after sanitization'')
         else Inr r)"
    using validate_view_name_sanitizes [of "[CHR 0xC9]"] by (rule conjunct1)
  also have "\<dots> = Inr [CHR 0xE9]"
    by code_simp
  finally show "validate_view_name [CHR 0xC9] = Inr [CHR 0xE9]" .
  show "validate_view_name (''Caf'' @ [CHR 0xE9] @ '' 1'') = Inr (''caf'' @ [CHR 0xE9] @ ''_1'')"
    by code_simp
qed

text \<open>
  C9 as the specification words it fails on a name with a leading blank: the code removes
  the blank, the wording turns it into an underscore.
\<close>

theorem validate_view_name_strip_counterexample:
  "validate_view_name '' a'' = Inr ''a'' \<and> spec_sanitize '' a'' = Inr ''_a''"
  by code_simp

section \<open>Verdict, errors and SQL text of a validation result\<close>

lemma validate_view_with_unfold:
  assumes "extract_table_name (from_table (query v)) = Inr base"
    and "has_table S base"
    and "validate_joins E S base 0 (joins (query v)) ([base], [], []) = Inr (tq, errs1, warns)"
    and "validate_select_columns E S (select (query v)) tq = Inr se"
    and "errs6 = errs1 @ se @ later_errors E S (query v) tq"
  shows "validate_view_with c E S v =
     (case (if errs6 = []
            then (case c v of
                    Inr text \<Rightarrow> (Some text, errs6)
                  | Inl e \<Rightarrow> (None, errs6 @ [''SQL compilation failed: '' @ error_text e]))
            else (None, errs6)) of
        (sql_text, errs7) \<Rightarrow>
          Inr \<lparr>is_valid = (length errs7 = 0), vr_view_name = view_name v,
                errors = errs7, warnings = warns, sql = sql_text\<rparr>)"
proof -
  have e: "((((errs1 @ se) @
            (if truthy (where_conds (query v))
             then validate_conditions E S (the_list (where_conds (query v))) tq ''WHERE''
             else [])) @
            (if truthy (group_by (query v))
             then validate_column_list E S (the_list (group_by (query v))) tq ''GROUP BY''
             else [])) @
            (if truthy (having (query v))
             then validate_conditions E S (the_list (having (query v))) tq ''HAVING''
             else [])) @
            (if truthy (order_by (query v))
             then validate_column_list E S (the_list (order_by (query v))) tq ''ORDER BY''
             else []) = errs6"
    unfolding assms(5) later_errors_def by (simp only: append_assoc)
  show ?thesis
    unfolding validate_view_with_def Let_def
    by (simp only: assms(1-4) e sum.case prod.case if_False not_True_eq_False)
qed

lemma validate_view_with_result:
  assumes r: "validate_view_with c E S v = Inr r"
  shows "(is_valid r \<longleftrightarrow> errors r = []) \<and> (sql r \<noteq> None \<longleftrightarrow> is_valid r)"
proof (cases "extract_table_name (from_table (query v))")
  case (Inl e)
  with r show ?thesis by (simp add: validate_view_with_def)
next
  case base: (Inr base)
  show ?thesis
  proof (cases "has_table S base")
    case False
    with r base show ?thesis by (auto simp: validate_view_with_def)
  next
    case True
    show ?thesis
    proof (cases "validate_joins E S base 0 (joins (query v)) ([base], [], [])")
      case (Inl e)
      with r base True show ?thesis by (simp add: validate_view_with_def)
    next
      case js: (Inr st)
      obtain tq errs1 warns where st: "st = (tq, errs1, warns)" by (cases st)
      show ?thesis
      proof (cases "validate_select_columns E S (select (query v)) tq")
        case (Inl e)
        with r base True js st show ?thesis by (simp add: validate_view_with_def)
      next
        case sel: (Inr se)
        define errs6 where "errs6 = errs1 @ se @ later_errors E S (query v) tq"
        note eq = validate_view_with_unfold [OF base True js [unfolded st] sel errs6_def, of c]
        show ?thesis
        proof (cases "c v")
          case (Inl e)
          with r eq show ?thesis by (cases "errs6 = []") auto
        next
          case (Inr sqltext)
          with r eq show ?thesis by (cases "errs6 = []") auto
        qed
      qed
    qed
  qed
qed

lemma validate_joins_env:
  "(\<exists>e. validate_joins E S b i js (tq, errs, w) = Inl e \<and>
        validate_joins E' S b i js (tq, errs, w') = Inl e) \<or>
   (\<exists>t e ws ws'. validate_joins E S b i js (tq, errs, w) = Inr (t, e, ws) \<and>
        validate_joins E' S b i js (tq, errs, w') = Inr (t, e, ws'))"
proof (induction js arbitrary: i tq errs w w')
  case Nil
  show ?case by simp
next
  case (Cons j js)
  show ?case
  proof (cases "extract_table_name (join_table j)")
    case (Inl e)
    then show ?thesis by simp
  next
    case (Inr jt)
    show ?thesis
    proof (cases "has_table S jt")
      case False
      with Inr show ?thesis using Cons.IH by simp
    next
      case True
      obtain je jw where p: "validate_join_path S b jt j (i + 1) = (je, jw)"
        by (cases "validate_join_path S b jt j (i + 1)")
      from Inr True p show ?thesis
        using Cons.IH by simp
    qed
  qed
qed

lemma validate_view_with_env:
  assumes so: "set_order E' = set_order E"
    and r: "validate_view_with c E S v = Inr r"
  shows "\<exists>r'. validate_view_with c E' S v = Inr r' \<and> is_valid r' = is_valid r \<and>
           errors r' = errors r \<and> sql r' = sql r"
proof -
  have sel: "validate_select_columns E' S xs ts = validate_select_columns E S xs ts" for xs ts
    by (simp add: validate_select_columns_def so)
  have cnd: "validate_conditions E' S xs ts n = validate_conditions E S xs ts n" for xs ts n
    by (simp add: validate_conditions_def so)
  have cl: "validate_column_list E' S xs ts n = validate_column_list E S xs ts n" for xs ts n
    by (simp add: validate_column_list_def so)
  have later: "later_errors E' S q ts = later_errors E S q ts" for q ts
    by (simp only: later_errors_def cnd cl)
  show ?thesis
  proof (cases "extract_table_name (from_table (query v))")
    case (Inl e)
    with r show ?thesis by (simp add: validate_view_with_def)
  next
    case base: (Inr base)
    show ?thesis
    proof (cases "has_table S base")
      case False
      with base r show ?thesis by (auto simp: validate_view_with_def)
    next
      case True
      from validate_joins_env [of E S base 0 "joins (query v)" "[base]" "[]" "[]" E' "[]"]
      show ?thesis
      proof (elim disjE exE conjE)
        fix e
        assume "validate_joins E S base 0 (joins (query v)) ([base], [], []) = Inl e"
        with base True r show ?thesis by (simp add: validate_view_with_def)
      next
        fix t e ws ws'
        assume j: "validate_joins E S base 0 (joins (query v)) ([base], [], []) = Inr (t, e, ws)"
          and j': "validate_joins E' S base 0 (joins (query v)) ([base], [], []) = Inr (t, e, ws')"
        show ?thesis
        proof (cases "validate_select_columns E S (select (query v)) t")
          case (Inl x)
          with base True j r show ?thesis by (simp add: validate_view_with_def)
        next
          case (Inr se)
          define errs6 where "errs6 = e @ se @ later_errors E S (query v) t"
          have errs6': "errs6 = e @ se @ later_errors E' S (query v) t"
            by (simp only: errs6_def later)
          note eq = validate_view_with_unfold [OF base True j Inr errs6_def, of c]
          note eq' = validate_view_with_unfold [OF base True j' Inr [folded sel] errs6', of c]
          show ?thesis
          proof (cases "c v")
            case (Inl x)
            with r eq eq' show ?thesis by (cases "errs6 = []") auto
          next
            case (Inr sqltext)
            with r eq eq' show ?thesis by (cases "errs6 = []") auto
          qed
        qed
      qed
    qed
  qed
qed


text \<open>
  C6: in every result of \<^verbatim>\<open>validate_view\<close> the verdict is valid exactly when the error
  list is empty; and the settings that only produce warnings (semantic validation on or
  off, its threshold, the formatting of the score) change neither the verdict nor the
  errors.
\<close>

theorem verdict_iff_no_errors:
  assumes "validate_view E S v = Inr r"
  shows "(is_valid r \<longleftrightarrow> errors r = []) \<and>
         (\<forall>E'. set_order E' = set_order E \<longrightarrow>
            (\<exists>r'. validate_view E' S v = Inr r' \<and> is_valid r' = is_valid r \<and>
                   errors r' = errors r))"
proof
  from assms show "is_valid r \<longleftrightarrow> errors r = []"
    unfolding validate_view_def by (rule validate_view_with_result [THEN conjunct1])
  show "\<forall>E'. set_order E' = set_order E \<longrightarrow>
          (\<exists>r'. validate_view E' S v = Inr r' \<and> is_valid r' = is_valid r \<and>
                 errors r' = errors r)"
  proof (intro allI impI)
    fix E' :: env
    assume "set_order E' = set_order E"
    from validate_view_with_env [OF this assms [unfolded validate_view_def]]
    show "\<exists>r'. validate_view E' S v = Inr r' \<and> is_valid r' = is_valid r \<and>
            errors r' = errors r"
      unfolding validate_view_def by blast
  qed
qed

text \<open>
  Witness for C6: the orders view is valid with a warning when every score counts as low,
  and valid without one when semantic validation is off.
\<close>

theorem verdict_iff_no_errors_witness:
  "\<exists>r r'. validate_view env_warning (schema_of orders_doc) orders_view = Inr r \<and>
      validate_view env_quiet (schema_of orders_doc) orders_view = Inr r' \<and>
      length (warnings r) = 1 \<and> warnings r' = [] \<and>
      is_valid r \<and> errors r = [] \<and> is_valid r' \<and> errors r' = []"
proof -
  have "case validate_view env_warning (schema_of orders_doc) orders_view of
          Inr r \<Rightarrow> length (warnings r) = 1 | Inl e \<Rightarrow> False"
    by code_simp
  then obtain r where h: "validate_view env_warning (schema_of orders_doc) orders_view = Inr r"
    and w: "length (warnings r) = 1"
    by (auto split: sum.splits)
  have "case validate_view env_quiet (schema_of orders_doc) orders_view of
          Inr r \<Rightarrow> warnings r = [] \<and> is_valid r | Inl e \<Rightarrow> False"
    by code_simp
  then obtain r0 where h0: "validate_view env_quiet (schema_of orders_doc) orders_view = Inr r0"
    and w0: "warnings r0 = []" "is_valid r0"
    by (auto split: sum.splits)
  have so: "set_order env_quiet = set_order env_warning"
    by (simp add: env_quiet_def env_warning_def)
  from verdict_iff_no_errors [OF h] so h0 w0
  have "is_valid r \<and> errors r = [] \<and> errors r0 = []"
    by auto
  with h h0 w w0 show ?thesis by blast
qed

text \<open>
  C10: a result of \<^verbatim>\<open>validate_view\<close> carries SQL text exactly when it is valid; this holds
  for whatever the compiling method does, also when it raises.
\<close>

theorem sql_present_iff_valid:
  "(validate_view E S v = Inr r \<longrightarrow> (sql r \<noteq> None \<longleftrightarrow> is_valid r)) \<and>
   (validate_view_with c E S v = Inr r' \<longrightarrow> (sql r' \<noteq> None \<longleftrightarrow> is_valid r'))"
  unfolding validate_view_def
  using validate_view_with_result [of compile_to_sql E S v r]
    validate_view_with_result [of c E S v r']
  by blast

text \<open>
  Witness for C10: the orders view with the compiler of the code (valid, with SQL text),
  and with a compiler that raises (invalid, without).
\<close>

theorem sql_present_iff_valid_witness:
  "\<exists>r r'. validate_view env_quiet (schema_of orders_doc) orders_view = Inr r \<and>
      validate_view_with (\<lambda>v. Inl IndexError) env_quiet (schema_of orders_doc) orders_view = Inr r' \<and>
      sql r \<noteq> None \<and> is_valid r \<and> sql r' = None \<and> \<not> is_valid r' \<and> length (errors r') = 1"
proof -
  have "case validate_view env_quiet (schema_of orders_doc) orders_view of
          Inr r \<Rightarrow> is_valid r | Inl e \<Rightarrow> False"
    by code_simp
  then obtain r where h: "validate_view env_quiet (schema_of orders_doc) orders_view = Inr r"
    and v: "is_valid r"
    by (auto split: sum.splits)
  have "case validate_view_with (\<lambda>v. Inl IndexError) env_quiet (schema_of orders_doc) orders_view of
          Inr r \<Rightarrow> length (errors r) = 1 \<and> \<not> is_valid r | Inl e \<Rightarrow> False"
    by code_simp
  then obtain r' where h': "validate_view_with (\<lambda>v. Inl IndexError) env_quiet
        (schema_of orders_doc) orders_view = Inr r'"
    and e': "length (errors r') = 1" "\<not> is_valid r'"
    by (auto split: sum.splits)
  from sql_present_iff_valid [of env_quiet "schema_of orders_doc" orders_view r
      "\<lambda>v. Inl IndexError" r'] h h' v e'
  have "sql r \<noteq> None \<and> sql r' = None"
    by auto
  with h h' v e' show ?thesis by blast
qed

section \<open>The orders scenario\<close>

lemma check_ref_known:
  assumes "ts \<noteq> []" and "has_table S p" and "\<forall>t \<in> set ts. has_column S t c"
  shows "check_ref S clause ts p c = []"
  using assms by (cases ts) (simp_all add: check_ref_def)

lemma set_pair_all:
  assumes "set ts = {a, b}" and "P a" and "P b"
  shows "ts \<noteq> [] \<and> (\<forall>t \<in> set ts. P t)"
  using assms by auto

lemma orders_view_joins:
  "validate_joins E (schema_of orders_doc) ''orders'' 0 (joins (query orders_view))
     ([''orders''], [], []) =
   Inr ([''orders'', ''customers''], [],
        if enable_semantic E
        then validate_semantic_relevance E (schema_of orders_doc) ''orders'' ''customers'' (0 + 1)
        else [])"
proof -
  let ?j = "\<lparr>join_type = ''INNER'', join_table = ''customers'',
             join_on = ''orders.customer_id = customers.id''\<rparr>"
  have j: "joins (query orders_view) = [?j]"
    by (simp add: orders_view_def)
  have jt: "extract_table_name (join_table ?j) = Inr ''customers''"
    by code_simp
  have ht: "has_table (schema_of orders_doc) ''customers''"
    by code_simp
  have jp: "validate_join_path (schema_of orders_doc) ''orders'' ''customers'' ?j (0 + 1) = ([], [])"
    by code_simp
  have sa: "set_add ''customers'' [''orders''] = [''orders'', ''customers'']"
    by code_simp
  show ?thesis
    unfolding j
    by (simp only: validate_joins.simps jt sum.case ht not_True_eq_False if_False
        jp prod.case Let_def sa append_Nil)
qed

lemma orders_view_select:
  assumes ne: "ts \<noteq> []"
    and all: "\<forall>t \<in> set ts. has_column (schema_of orders_doc) t ''id''"
  shows "validate_select_loop (schema_of orders_doc) ts (select (query orders_view)) = Inr []"
proof -
  let ?S = "schema_of orders_doc"
  have s: "select (query orders_view) = [''orders.id'', ''customers.id'']"
    by (simp add: orders_view_def)
  have ht: "has_table ?S ''orders''" "has_table ?S ''customers''"
    by code_simp+
  have d: "CHR ''.'' \<in> set ''orders.id''" "CHR ''.'' \<in> set ''customers.id''"
    by simp_all
  have sp: "split_on CHR ''.'' ''orders.id'' = [''orders'', ''id'']"
    "split_on CHR ''.'' ''customers.id'' = [''customers'', ''id'']"
    "split_ws ''id'' = [''id'']"
    "strip ''id'' = ''id''" "strip ''orders'' = ''orders''" "strip ''customers'' = ''customers''"
    by code_simp+
  have e1: "validate_select_expr ?S ts ''orders.id'' = Inr (check_ref ?S ''SELECT'' ts ''orders'' ''id'')"
    unfolding validate_select_expr_def
    by (simp only: d sp if_True list.case)
  have e2: "validate_select_expr ?S ts ''customers.id'' = Inr (check_ref ?S ''SELECT'' ts ''customers'' ''id'')"
    unfolding validate_select_expr_def
    by (simp only: d sp if_True list.case)
  show ?thesis
    unfolding s
    by (simp only: validate_select_loop.simps e1 e2
        check_ref_known [OF ne ht(1) all] check_ref_known [OF ne ht(2) all] sum.case append_Nil)
qed

text \<open>
  C5: for the schema with the tables orders, whose column customer\_id is a foreign key
  to customers.id, and customers, the view that joins customers to orders on
  orders.customer\_id = customers.id and selects orders.id and customers.id has no
  errors, and its SQL text is the one stated. The view selects orders.id, so orders has
  its id column beside the foreign key that the scenario names. The result holds for
  every order in which the set of the two tables may be iterated.
\<close>

theorem orders_view_valid:
  assumes "set (set_order E [''orders'', ''customers'']) = {''orders'', ''customers''}"
  shows "parse orders_doc = Inr (schema_of orders_doc) \<and>
         map_sum id errors (validate_view E (schema_of orders_doc) orders_view) = Inr [] \<and>
         map_sum id sql (validate_view E (schema_of orders_doc) orders_view) =
           Inr (Some ''SELECT orders.id, customers.id\<newline>FROM orders\<newline>INNER JOIN customers ON orders.customer_id = customers.id;'')"
proof -
  let ?S = "schema_of orders_doc"
  let ?ts = "set_order E [''orders'', ''customers'']"
  have p: "parse orders_doc = Inr ?S"
    by code_simp
  have base: "extract_table_name (from_table (query orders_view)) = Inr ''orders''"
    by code_simp
  have ht: "has_table ?S ''orders''"
    by code_simp
  have hc: "has_column ?S ''orders'' ''id''" "has_column ?S ''customers'' ''id''"
    by code_simp+
  have ne: "?ts \<noteq> []" and all: "\<forall>t \<in> set ?ts. has_column ?S t ''id''"
    using set_pair_all [OF assms, of "\<lambda>t. has_column ?S t ''id''", OF hc] by blast+
  have sel: "validate_select_columns E ?S (select (query orders_view)) [''orders'', ''customers''] = Inr []"
    unfolding validate_select_columns_def by (rule orders_view_select [OF ne all])
  have w: "where_conds (query orders_view) = None" "group_by (query orders_view) = None"
    "having (query orders_view) = None" "order_by (query orders_view) = None"
    by (simp_all add: orders_view_def)
  have later: "later_errors E ?S (query orders_view) [''orders'', ''customers''] = []"
    unfolding later_errors_def w by (simp add: truthy_def)
  have c: "compile_to_sql orders_view =
      Inr ''SELECT orders.id, customers.id\<newline>FROM orders\<newline>INNER JOIN customers ON orders.customer_id = customers.id;''"
    by code_simp
  have errs6: "[] = [] @ [] @ later_errors E ?S (query orders_view) [''orders'', ''customers'']"
    unfolding later by simp
  note eq = validate_view_with_unfold [OF base ht orders_view_joins sel errs6, of compile_to_sql]
  show ?thesis
    unfolding validate_view_def eq c
    by (simp add: p)
qed

text \<open>Witness for C5: the order of insertion as the order of iteration.\<close>

theorem orders_view_valid_witness:
  "map_sum id errors (validate_view env_quiet (schema_of orders_doc) orders_view) = Inr []"
proof -
  have "set_order env_quiet [''orders'', ''customers''] = [''orders'', ''customers'']"
    by (simp add: env_quiet_def)
  then have "set (set_order env_quiet [''orders'', ''customers'']) = {''orders'', ''customers''}"
    by (simp only: list.set)
  from orders_view_valid [OF this] show ?thesis by (elim conjE)
qed

section \<open>Select-list validation\<close>

text \<open>
  C1 at a failing input: the base table orders exists, nothing is joined, and the select
  list names customers.id. The prefix customers is not among the tables of the query, yet
  no error is reported, and SQL text that selects from a table absent from the query is
  produced: the loop accepts any table of the schema as prefix and looks the column up in
  the table of the query it is at.
\<close>

theorem select_foreign_table_accepted:
  "map_sum id errors (validate_view env_quiet (schema_of orders_doc) misplaced_view) = Inr [] \<and>
   map_sum id is_valid (validate_view env_quiet (schema_of orders_doc) misplaced_view) = Inr True \<and>
   map_sum id sql (validate_view env_quiet (schema_of orders_doc) misplaced_view) =
     Inr (Some ''SELECT customers.id\<newline>FROM orders;'')"
  by code_simp

text \<open>Witness for C1: the verdict at that input.\<close>

theorem select_foreign_table_accepted_witness:
  "map_sum id is_valid (validate_view env_quiet (schema_of orders_doc) misplaced_view) = Inr True"
  using select_foreign_table_accepted by (elim conjE)

section \<open>Join paths between names of one table\<close>

text \<open>
  C3 at a failing input: two names that differ in case and denote the same table. The
  test for identical tables compares the names as given, before they are normalised; the
  search then yields the one-node path, whose list of hops is empty and is returned as
  \<open>None\<close>. This happens for a table with foreign-key relationships (orders) and for one
  without (products); only identical names give the empty path.
\<close>

theorem join_path_same_table_other_case:
  "get_join_path (schema_of shop_doc) ''Orders'' ''orders'' = None \<and>
   get_join_path (schema_of shop_doc) ''Products'' ''products'' = None \<and>
   get_join_path (schema_of shop_doc) ''orders'' ''orders'' = Some [] \<and>
   has_table (schema_of shop_doc) ''Orders'' \<and> has_table (schema_of shop_doc) ''Products''"
  by code_simp

text \<open>Witness for C3: the lookup for orders under two spellings.\<close>

theorem join_path_same_table_other_case_witness:
  "get_join_path (schema_of shop_doc) ''Orders'' ''orders'' = None"
  using join_path_same_table_other_case by (elim conjE)

section \<open>Foreign keys and the relationship graph\<close>

lemma map_fst_dict_set:
  "map fst (dict_set k v xs) = (if k \<in> fst ` set xs then map fst xs else map fst xs @ [k])"
  by (induction xs) auto

lemma set_fst_dict_set: "fst ` set (dict_set k v xs) = insert k (fst ` set xs)"
proof -
  have "set (map fst (dict_set k v xs)) = insert k (set (map fst xs))"
    unfolding map_fst_dict_set by auto
  then show ?thesis by simp
qed

lemma map_of_dict_set: "map_of (dict_set k v xs) = (map_of xs)(k \<mapsto> v)"
  by (induction xs) (auto simp: fun_eq_iff)

lemma map_dict_set_same:
  "map_of xs k = Some v \<Longrightarrow> f (k, v') = f (k, v) \<Longrightarrow> map f (dict_set k v' xs) = map f xs"
  by (induction xs) (auto split: if_splits)

lemma map_col_name_mark_fk: "map col_name (mark_fk cn r cs) = map col_name cs"
  by (induction cs) auto

lemma marked_Cons:
  "marked (c # cs) =
     (if is_foreign_key c then insert (lower (col_name c)) (marked cs) else marked cs)"
  by (simp add: marked_def)

lemma marked_mark_fk:
  "marked (mark_fk cn r cs) =
     marked cs \<union> (if lower cn \<in> lower ` col_name ` set cs then {lower cn} else {})"
proof (induction cs)
  case Nil
  show ?case by (simp add: marked_def)
next
  case (Cons c cs)
  show ?case
  proof (cases "lower (col_name c) = lower cn")
    case True
    then show ?thesis by (auto simp: marked_Cons)
  next
    case False
    then show ?thesis using Cons.IH by (auto simp: marked_Cons)
  qed
qed

lemma get_column_None_iff:
  "get_column t cn = None \<longleftrightarrow> lower cn \<notin> lower ` col_name ` set (columns t)"
proof
  assume "get_column t cn = None"
  then have n: "\<forall>c \<in> set (columns t). lower (col_name c) \<noteq> lower cn"
    by (auto simp: get_column_def find_None_iff)
  show "lower cn \<notin> lower ` col_name ` set (columns t)"
  proof
    assume "lower cn \<in> lower ` col_name ` set (columns t)"
    then obtain c where "c \<in> set (columns t)" "lower cn = lower (col_name c)"
      by auto
    with n show False by auto
  qed
next
  assume a: "lower cn \<notin> lower ` col_name ` set (columns t)"
  have "\<forall>c \<in> set (columns t). lower (col_name c) \<noteq> lower cn"
  proof
    fix c
    assume "c \<in> set (columns t)"
    then have "lower (col_name c) \<in> lower ` col_name ` set (columns t)"
      by (intro imageI)
    with a show "lower (col_name c) \<noteq> lower cn" by auto
  qed
  then show "get_column t cn = None"
    by (auto simp: get_column_def find_None_iff)
qed

lemma add_fk_accepted:
  assumes "accepted S (tn, fk)"
  shows "\<exists>t. map_of (tables S) tn = Some t \<and>
     tables (add_fk tn fk S) =
       dict_set tn (t\<lparr>columns := mark_fk (fk_cn fk) (fk_rt fk, fk_rc fk) (columns t)\<rparr>) (tables S) \<and>
     relationship_graph (add_fk tn fk S) =
       add_edge (fk_rt fk) tn \<lparr>ea_column = fk_rc fk, ea_references = fk_cn fk, ea_direction = ''reverse''\<rparr>
         (add_edge tn (fk_rt fk) \<lparr>ea_column = fk_cn fk, ea_references = fk_rc fk, ea_direction = ''forward''\<rparr>
            (relationship_graph S)) \<and>
     log_warnings (add_fk tn fk S) = log_warnings S"
proof -
  from assms obtain t where t: "map_of (tables S) tn = Some t" and a: "fk_accepted S t fk"
    by (auto simp: accepted_def split: option.splits)
  from a have c: "\<not> (falsy (fk_column fk) \<or> falsy (fk_references_table fk) \<or>
      falsy (fk_references_column fk))" "fk_rt fk \<in> fst ` set (tables S)"
      "get_column t (fk_cn fk) \<noteq> None"
    unfolding fk_accepted_def by blast+
  show ?thesis
    using t c by (simp add: add_fk_def Let_def)
qed

lemma add_fk_rejected:
  assumes "\<not> accepted S (tn, fk)"
  shows "tables (add_fk tn fk S) = tables S \<and>
     relationship_graph (add_fk tn fk S) = relationship_graph S \<and>
     length (log_warnings (add_fk tn fk S)) =
       length (log_warnings S) + (if map_of (tables S) tn = None then 0 else 1)"
proof (cases "map_of (tables S) tn")
  case None
  then show ?thesis by (simp add: add_fk_def)
next
  case (Some t)
  let ?inc = "falsy (fk_column fk) \<or> falsy (fk_references_table fk) \<or>
      falsy (fk_references_column fk)"
  from assms Some have "\<not> fk_accepted S t fk"
    by (simp add: accepted_def)
  then consider (a) ?inc
    | (b) "\<not> ?inc" "fk_rt fk \<notin> fst ` set (tables S)"
    | (c) "\<not> ?inc" "fk_rt fk \<in> fst ` set (tables S)" "get_column t (fk_cn fk) = None"
    unfolding fk_accepted_def by blast
  then show ?thesis
  proof cases
    case a
    with Some show ?thesis by (simp add: add_fk_def)
  next
    case b
    with Some show ?thesis by (simp add: add_fk_def)
  next
    case c
    with Some show ?thesis by (simp add: add_fk_def)
  qed
qed

lemma map_of_skel:
  "map_of (skel S) n =
     map_option (\<lambda>t. (map col_name (columns t), foreign_keys t)) (map_of (tables S) n)"
  unfolding skel_def by (induction "tables S" arbitrary: S) (auto simp: map_of_map)

lemma keys_skel: "fst ` set (skel S) = fst ` set (tables S)"
  unfolding skel_def by force

lemma accepted_via_skel:
  "accepted S (tn, fk) =
     (case map_of (skel S) tn of
        None \<Rightarrow> False
      | Some (cols, fks) \<Rightarrow>
          \<not> falsy (fk_column fk) \<and> \<not> falsy (fk_references_table fk) \<and>
          \<not> falsy (fk_references_column fk) \<and> fk_rt fk \<in> fst ` set (skel S) \<and>
          lower (fk_cn fk) \<in> lower ` set cols)"
proof (cases "map_of (tables S) tn")
  case None
  then show ?thesis by (simp add: accepted_def map_of_skel)
next
  case (Some t)
  have "(get_column t (fk_cn fk) \<noteq> None) = (lower (fk_cn fk) \<in> lower ` set (map col_name (columns t)))"
    by (simp add: get_column_None_iff)
  with Some show ?thesis
    by (simp add: accepted_def map_of_skel keys_skel fk_accepted_def)
qed

lemma accepted_skel:
  assumes "skel S' = skel S"
  shows "accepted S' p = accepted S p"
proof (cases p)
  case (Pair tn fk)
  show ?thesis unfolding Pair accepted_via_skel assms by (rule refl)
qed

lemma work_list_via_skel:
  "work_list S tns =
     concat (map (\<lambda>tn. case map_of (skel S) tn of
                          None \<Rightarrow> [] | Some (cols, fks) \<Rightarrow> map (Pair tn) fks) tns)"
proof -
  have "(case map_of (tables S) tn of None \<Rightarrow> [] | Some t \<Rightarrow> map (Pair tn) (foreign_keys t)) =
      (case map_of (skel S) tn of None \<Rightarrow> [] | Some (cols, fks) \<Rightarrow> map (Pair tn) fks)" for tn
    by (cases "map_of (tables S) tn") (simp_all add: map_of_skel)
  then show ?thesis by (simp add: work_list_def)
qed

lemma work_list_skel: "skel S' = skel S \<Longrightarrow> work_list S' tns = work_list S tns"
  by (simp add: work_list_via_skel)

lemma skel_add_fk: "skel (add_fk tn fk S) = skel S"
proof (cases "accepted S (tn, fk)")
  case True
  from add_fk_accepted [OF True] obtain t where t: "map_of (tables S) tn = Some t"
    and tb: "tables (add_fk tn fk S) =
       dict_set tn (t\<lparr>columns := mark_fk (fk_cn fk) (fk_rt fk, fk_rc fk) (columns t)\<rparr>) (tables S)"
    by blast
  show ?thesis
    unfolding skel_def tb
    by (rule map_dict_set_same [OF t]) (simp add: map_col_name_mark_fk)
next
  case False
  from add_fk_rejected [OF False] show ?thesis by (simp add: skel_def)
qed

lemma run_fks_Nil: "run_fks [] S = S"
  by (simp add: run_fks_def)

lemma run_fks_Cons: "run_fks (p # w) S = run_fks w (add_fk (fst p) (snd p) S)"
  by (simp add: run_fks_def)

lemma run_fks_append: "run_fks (w @ w') S = run_fks w' (run_fks w S)"
  by (simp add: run_fks_def)

lemma skel_run_fks: "skel (run_fks w S) = skel S"
  by (induction w arbitrary: S) (simp_all add: run_fks_Nil run_fks_Cons skel_add_fk)

lemma add_fks_run: "add_fks tn fks S = run_fks (map (Pair tn) fks) S"
  by (induction fks arbitrary: S) (simp_all add: run_fks_Nil run_fks_Cons)

lemma second_pass_run: "second_pass tns S = run_fks (work_list S tns) S"
proof (induction tns arbitrary: S)
  case Nil
  show ?case by (simp add: work_list_def run_fks_Nil)
next
  case (Cons tn tns)
  let ?h = "case map_of (tables S) tn of None \<Rightarrow> [] | Some t \<Rightarrow> map (Pair tn) (foreign_keys t)"
  let ?S' = "case map_of (tables S) tn of None \<Rightarrow> S | Some t \<Rightarrow> add_fks tn (foreign_keys t) S"
  have h: "?S' = run_fks ?h S"
    by (cases "map_of (tables S) tn") (simp_all add: run_fks_Nil add_fks_run)
  have "second_pass (tn # tns) S = second_pass tns ?S'"
    by simp
  also have "\<dots> = run_fks (work_list ?S' tns) ?S'"
    by (rule Cons.IH)
  also have "work_list ?S' tns = work_list S tns"
    unfolding h by (rule work_list_skel) (rule skel_run_fks)
  also have "run_fks (work_list S tns) ?S' = run_fks (?h @ work_list S tns) S"
    unfolding h by (simp add: run_fks_append)
  also have "?h @ work_list S tns = work_list S (tn # tns)"
    by (simp add: work_list_def)
  finally show ?case .
qed

lemma edge_keys_add_edge: "edge_keys (add_edge u v a g) = insert (u, v) (edge_keys g)"
  by (simp add: edge_keys_def add_edge_def set_fst_dict_set)

lemma edge_keys_add_fk:
  "edge_keys (relationship_graph (add_fk tn fk S)) =
     edge_keys (relationship_graph S) \<union> (if accepted S (tn, fk) then fk_edges (tn, fk) else {})"
proof (cases "accepted S (tn, fk)")
  case True
  from add_fk_accepted [OF True] show ?thesis
    using True by (auto simp: edge_keys_add_edge fk_edges_def)
next
  case False
  from add_fk_rejected [OF False] show ?thesis
    using False by simp
qed

lemma edge_keys_run_fks:
  "edge_keys (relationship_graph (run_fks w S)) =
     edge_keys (relationship_graph S) \<union> (\<Union>p \<in> {p \<in> set w. accepted S p}. fk_edges p)"
proof (induction w arbitrary: S)
  case Nil
  show ?case by (simp add: run_fks_Nil)
next
  case (Cons p w)
  have a: "accepted (add_fk (fst p) (snd p) S) q = accepted S q" for q
    by (rule accepted_skel) (rule skel_add_fk)
  show ?case
    unfolding run_fks_Cons Cons.IH a edge_keys_add_fk
    by (cases "accepted S p") auto
qed

lemma marked_at_add_fk:
  "marked_at (add_fk tn fk S) n =
     marked_at S n \<union> (if accepted S (tn, fk) \<and> n = tn then {lower (fk_cn fk)} else {})"
proof (cases "accepted S (tn, fk)")
  case True
  from add_fk_accepted [OF True] obtain t where t: "map_of (tables S) tn = Some t"
    and tb: "tables (add_fk tn fk S) =
       dict_set tn (t\<lparr>columns := mark_fk (fk_cn fk) (fk_rt fk, fk_rc fk) (columns t)\<rparr>) (tables S)"
    by blast
  from True t have "fk_accepted S t fk"
    by (simp add: accepted_def)
  then have "get_column t (fk_cn fk) \<noteq> None"
    by (simp add: fk_accepted_def)
  then have m: "lower (fk_cn fk) \<in> lower ` col_name ` set (columns t)"
    by (simp add: get_column_None_iff)
  show ?thesis
    using True t m by (simp add: marked_at_def tb map_of_dict_set marked_mark_fk)
next
  case False
  from add_fk_rejected [OF False] show ?thesis
    using False by (simp add: marked_at_def)
qed

lemma marked_at_run_fks:
  "marked_at (run_fks w S) n =
     marked_at S n \<union> {lower (fk_cn fk) | fk. (n, fk) \<in> set w \<and> accepted S (n, fk)}"
proof (induction w arbitrary: S)
  case Nil
  show ?case by (simp add: run_fks_Nil)
next
  case (Cons p w)
  have a: "accepted (add_fk (fst p) (snd p) S) q = accepted S q" for q
    by (rule accepted_skel) (rule skel_add_fk)
  show ?case
    unfolding run_fks_Cons Cons.IH a marked_at_add_fk
    by (cases p) auto
qed

lemma has_entry_skel: "(map_of (tables S) n = None) = (map_of (skel S) n = None)"
  by (simp add: map_of_skel)

lemma warnings_run_fks:
  "length (log_warnings (run_fks w S)) =
     length (log_warnings S) +
     length (filter (\<lambda>p. \<not> accepted S p \<and> map_of (tables S) (fst p) \<noteq> None) w)"
proof (induction w arbitrary: S)
  case Nil
  show ?case by (simp add: run_fks_Nil)
next
  case (Cons p w)
  let ?S' = "add_fk (fst p) (snd p) S"
  have a: "accepted ?S' q = accepted S q" for q
    by (rule accepted_skel) (rule skel_add_fk)
  have b: "(map_of (tables ?S') n = None) = (map_of (tables S) n = None)" for n
    by (simp add: has_entry_skel skel_add_fk)
  have "length (log_warnings ?S') =
      length (log_warnings S) + (if \<not> accepted S p \<and> map_of (tables S) (fst p) \<noteq> None then 1 else 0)"
  proof (cases "accepted S p")
    case True
    then have "accepted S (fst p, snd p)" by simp
    from add_fk_accepted [OF this] True show ?thesis by auto
  next
    case False
    then have "\<not> accepted S (fst p, snd p)" by simp
    from add_fk_rejected [OF this] False show ?thesis by auto
  qed
  then show ?case
    unfolding run_fks_Cons Cons.IH a b by simp
qed

lemma set_dict_set_subset: "set (dict_set k v xs) \<subseteq> insert (k, v) (set xs)"
  by (induction xs) auto

lemma distinct_keys_dict_set:
  "distinct (map fst xs) \<Longrightarrow> distinct (map fst (dict_set k v xs))"
  by (simp add: map_fst_dict_set)

lemma marked_parse_columns: "marked (fst (parse_columns tn cds)) = {}"
  by (induction cds) (auto simp: marked_def Let_def split: prod.splits)

lemma first_pass_invariant:
  assumes "distinct (map fst (tables S))"
    and "\<forall>(n, t) \<in> set (tables S). marked (columns t) = {}"
  shows "distinct (map fst (tables (first_pass tds S))) \<and>
         (\<forall>(n, t) \<in> set (tables (first_pass tds S)). marked (columns t) = {}) \<and>
         relationship_graph (first_pass tds S) = relationship_graph S"
  using assms
proof (induction tds arbitrary: S)
  case Nil
  then show ?case by simp
next
  case (Cons td tds)
  show ?case
  proof (cases "falsy (td_name td)")
    case True
    let ?S' = "S\<lparr>log_warnings := log_warnings S @ [''Skipping table without name'']\<rparr>"
    have "distinct (map fst (tables ?S'))" "\<forall>(n, t) \<in> set (tables ?S'). marked (columns t) = {}"
      using Cons.prems by simp_all
    from Cons.IH [OF this] True show ?thesis by simp
  next
    case False
    obtain cs ws where pc: "parse_columns (get_or (td_name td) []) (td_columns td) = (cs, ws)"
      by (cases "parse_columns (get_or (td_name td) []) (td_columns td)")
    let ?t = "\<lparr>tbl_name = get_or (td_name td) [], columns = cs,
        foreign_keys = td_foreign_keys td, tbl_description = get_or (td_description td) []\<rparr>"
    let ?S' = "S\<lparr>tables := dict_set (get_or (td_name td) []) ?t (tables S),
        log_warnings := log_warnings S @ ws\<rparr>"
    have m: "marked cs = {}"
      using marked_parse_columns [of "get_or (td_name td) []" "td_columns td"] pc by simp
    have d: "distinct (map fst (tables ?S'))"
      using Cons.prems(1) by (simp add: distinct_keys_dict_set)
    have u: "\<forall>(n, t) \<in> set (tables ?S'). marked (columns t) = {}"
    proof (clarify)
      fix n t
      assume "(n, t) \<in> set (tables ?S')"
      then have "(n, t) \<in> set (dict_set (get_or (td_name td) []) ?t (tables S))"
        by simp
      with set_dict_set_subset [of "get_or (td_name td) []" ?t "tables S"]
      have "t = ?t \<or> (n, t) \<in> set (tables S)"
        by blast
      then show "marked (columns t) = {}"
      proof
        assume "t = ?t"
        with m show ?thesis by simp
      next
        assume "(n, t) \<in> set (tables S)"
        with Cons.prems(2) show ?thesis by blast
      qed
    qed
    have "first_pass (td # tds) S = first_pass tds ?S'"
      using False pc by (simp add: Let_def)
    with Cons.IH [OF d u] show ?thesis by simp
  qed
qed

lemma identify_column_keeps:
  "col_name (identify_column c) = col_name c"
  "is_foreign_key (identify_column c) = is_foreign_key c"
  by (simp_all add: identify_column_def)

lemma marked_identify: "marked (map identify_column cs) = marked cs"
  by (induction cs) (simp_all add: marked_Cons identify_column_keeps)

lemma skel_identify: "skel (identify_primary_keys S) = skel S"
  by (auto simp: skel_def identify_primary_keys_def identify_column_keeps comp_def)

lemma map_of_identify:
  "map_of (tables (identify_primary_keys S)) n =
     map_option (\<lambda>t. t\<lparr>columns := map identify_column (columns t)\<rparr>) (map_of (tables S) n)"
  unfolding identify_primary_keys_def
  by (induction "tables S" arbitrary: S) (auto simp: map_of_map)

lemma marked_at_identify: "marked_at (identify_primary_keys S) n = marked_at S n"
  by (cases "map_of (tables S) n") (simp_all add: marked_at_def map_of_identify marked_identify)

lemma work_list_distinct:
  assumes "distinct (map fst (tables S))"
  shows "work_list S (map fst (tables S)) = declared S"
proof -
  have "(case map_of (tables S) (fst e) of None \<Rightarrow> [] | Some t \<Rightarrow> map (Pair (fst e)) (foreign_keys t)) =
      (case e of (tn, t) \<Rightarrow> map (Pair tn) (foreign_keys t))" if "e \<in> set (tables S)" for e
  proof (cases e)
    case (Pair n t)
    with that assms have "map_of (tables S) n = Some t" by simp
    with Pair show ?thesis by simp
  qed
  then have e: "map (\<lambda>e. case map_of (tables S) (fst e) of None \<Rightarrow> []
        | Some t \<Rightarrow> map (Pair (fst e)) (foreign_keys t)) (tables S) =
      map (\<lambda>(tn, t). map (Pair tn) (foreign_keys t)) (tables S)"
    by (intro map_cong refl)
  have "work_list S (map fst (tables S)) =
      concat (map (\<lambda>e. case map_of (tables S) (fst e) of None \<Rightarrow> []
        | Some t \<Rightarrow> map (Pair (fst e)) (foreign_keys t)) (tables S))"
    unfolding work_list_def map_map comp_def by (rule refl)
  also have "\<dots> = declared S"
    unfolding e declared_def by (rule refl)
  finally show ?thesis .
qed

lemma declared_skel: "skel S' = skel S \<Longrightarrow> declared S' = declared S"
proof -
  have "declared S = concat (map (\<lambda>(tn, cols, fks). map (Pair tn) fks) (skel S))" for S
    by (simp add: declared_def skel_def comp_def case_prod_unfold)
  then show "skel S' = skel S \<Longrightarrow> declared S' = declared S" by simp
qed

lemma set_declared:
  "set (declared S) = {(tn, fk). \<exists>t. (tn, t) \<in> set (tables S) \<and> fk \<in> set (foreign_keys t)}"
  by (auto simp: declared_def)

lemma parse_structure:
  assumes "parse tds = Inr S"
  shows "distinct (map fst (tables S)) \<and>
         edge_keys (relationship_graph S) = (\<Union>p \<in> {p \<in> set (declared S). accepted S p}. fk_edges p) \<and>
         (\<forall>n. marked_at S n = {lower (fk_cn fk) | fk. (n, fk) \<in> set (declared S) \<and> accepted S (n, fk)}) \<and>
         length (log_warnings S) =
           length (log_warnings (first_pass tds empty_schema)) +
           length (filter (\<lambda>p. \<not> accepted S p) (declared S))"
proof -
  define S1 where "S1 = first_pass tds empty_schema"
  define w where "w = work_list S1 (map fst (tables S1))"
  define S2 where "S2 = run_fks w S1"
  from assms have S: "S = identify_primary_keys S2"
    unfolding S2_def w_def S1_def
    by (simp add: parse_def Let_def second_pass_run empty_schema_def split: if_splits)
  have "distinct (map fst (tables empty_schema))"
    "\<forall>(n, t) \<in> set (tables empty_schema). marked (columns t) = {}"
    by (simp_all add: empty_schema_def)
  from first_pass_invariant [OF this, of tds]
  have d1: "distinct (map fst (tables S1))"
    and u1: "\<forall>(n, t) \<in> set (tables S1). marked (columns t) = {}"
    and g1: "relationship_graph S1 = []"
    unfolding S1_def by (simp_all add: empty_schema_def)
  have sk2: "skel S2 = skel S1"
    unfolding S2_def by (rule skel_run_fks)
  have sk: "skel S = skel S1"
    unfolding S skel_identify by (rule sk2)
  have "map fst (skel S) = map fst (skel S1)"
    by (simp only: sk)
  then have keys: "map fst (tables S) = map fst (tables S1)"
    by (simp add: skel_def comp_def case_prod_unfold)
  have w: "w = declared S"
    unfolding w_def using work_list_distinct [OF d1] declared_skel [OF sk] by simp
  have acc: "accepted S1 p = accepted S p" for p
    by (rule accepted_skel) (simp only: sk)
  have m1: "marked_at S1 n = {}" for n
  proof (cases "map_of (tables S1) n")
    case None
    then show ?thesis by (simp add: marked_at_def)
  next
    case (Some t)
    then have "(n, t) \<in> set (tables S1)" by (rule map_of_SomeD)
    with u1 Some show ?thesis by (auto simp: marked_at_def)
  qed
  have dom: "map_of (tables S1) (fst p) \<noteq> None" if "p \<in> set (declared S)" for p
  proof -
    from that have "p \<in> set (declared S1)" using declared_skel [OF sk] by simp
    then obtain t where "(fst p, t) \<in> set (tables S1)"
      by (auto simp: set_declared)
    with d1 show ?thesis by simp
  qed
  have gS: "relationship_graph S = relationship_graph S2"
    and lS: "log_warnings S = log_warnings S2"
    unfolding S by (simp_all add: identify_primary_keys_def)
  have "edge_keys (relationship_graph S2) =
      edge_keys (relationship_graph S1) \<union> (\<Union>p \<in> {p \<in> set w. accepted S1 p}. fk_edges p)"
    unfolding S2_def by (rule edge_keys_run_fks)
  then have e: "edge_keys (relationship_graph S) =
      (\<Union>p \<in> {p \<in> set (declared S). accepted S p}. fk_edges p)"
    unfolding gS w acc g1 by (simp add: edge_keys_def)
  have m: "marked_at S n = {lower (fk_cn fk) | fk. (n, fk) \<in> set (declared S) \<and> accepted S (n, fk)}" for n
  proof -
    have "marked_at S n = marked_at S2 n"
      unfolding S by (rule marked_at_identify)
    also have "\<dots> = marked_at S1 n \<union> {lower (fk_cn fk) | fk. (n, fk) \<in> set w \<and> accepted S1 (n, fk)}"
      unfolding S2_def by (rule marked_at_run_fks)
    finally show ?thesis
      unfolding m1 w acc by simp
  qed
  have f: "filter (\<lambda>p. \<not> accepted S p \<and> map_of (tables S1) (fst p) \<noteq> None) (declared S) =
      filter (\<lambda>p. \<not> accepted S p) (declared S)"
    by (rule filter_cong) (auto dest: dom)
  have "length (log_warnings S2) = length (log_warnings S1) +
      length (filter (\<lambda>p. \<not> accepted S1 p \<and> map_of (tables S1) (fst p) \<noteq> None) w)"
    unfolding S2_def by (rule warnings_run_fks)
  then have l: "length (log_warnings S) =
      length (log_warnings S1) + length (filter (\<lambda>p. \<not> accepted S p) (declared S))"
    unfolding lS w acc f .
  from d1 keys e m l show ?thesis
    unfolding S1_def by simp
qed






section \<open>The edges of a foreign key\<close>



lemma get_edge_data_None_iff:
  "get_edge_data g x y = None \<longleftrightarrow> (x, y) \<notin> edge_keys g"
  by (simp add: get_edge_data_def edge_keys_def map_of_eq_None_iff)










section \<open>Deduplication\<close>

lemma filter_upt_Suc:
  "filter P [0..<Suc n] = (if P 0 then [0] else []) @ map Suc (filter (\<lambda>i. P (Suc i)) [0..<n])"
proof -
  have "[0..<Suc n] = 0 # map Suc [0..<n]"
    by (simp add: upt_conv_Cons map_Suc_upt del: upt_Suc)
  then show ?thesis
    by (simp add: filter_map comp_def del: upt_Suc)
qed

lemma dedup_loop_firsts:
  "dedup_loop vs seen uniq = Inr out \<Longrightarrow>
     out = uniq @ map (\<lambda>i. vs ! i)
       (filter (\<lambda>i. unseen seen (vs ! i) \<and> (\<forall>j<i. signature (vs ! j) \<noteq> signature (vs ! i)))
          [0..<length vs])"
proof (induction vs arbitrary: seen uniq)
  case Nil
  then show ?case by simp
next
  case (Cons v vs)
  from Cons.prems obtain sg where sg: "signature v = Inr sg"
    by (cases "signature v") simp_all
  let ?P = "\<lambda>i. unseen seen ((v # vs) ! i) \<and>
      (\<forall>j<i. signature ((v # vs) ! j) \<noteq> signature ((v # vs) ! i))"
  have split: "map (\<lambda>i. (v # vs) ! i) (filter ?P [0..<length (v # vs)]) =
      (if ?P 0 then [v] else []) @ map (\<lambda>i. vs ! i) (filter (\<lambda>i. ?P (Suc i)) [0..<length vs])"
    unfolding length_Cons filter_upt_Suc by (simp add: comp_def)
  have P0: "?P 0 \<longleftrightarrow> sg \<notin> seen"
    by (simp add: unseen_def sg)
  show ?case
  proof (cases "sg \<in> seen")
    case True
    have PS: "?P (Suc i) \<longleftrightarrow> unseen seen (vs ! i) \<and> (\<forall>j<i. signature (vs ! j) \<noteq> signature (vs ! i))" for i
    proof -
      have "signature v \<noteq> signature (vs ! i)" if u: "unseen seen (vs ! i)"
      proof
        assume "signature v = signature (vs ! i)"
        then have "signature (vs ! i) = Inr sg" using sg by simp
        with u True show False by (simp add: unseen_def)
      qed
      then show ?thesis
        by (auto simp: All_less_Suc2)
    qed
    from Cons.prems sg True have "dedup_loop vs seen uniq = Inr out" by simp
    from Cons.IH [OF this] show ?thesis
      unfolding split PS P0 using True by simp
  next
    case False
    have PS: "?P (Suc i) \<longleftrightarrow> unseen (insert sg seen) (vs ! i) \<and>
        (\<forall>j<i. signature (vs ! j) \<noteq> signature (vs ! i))" for i
    proof -
      have "unseen (insert sg seen) (vs ! i) \<longleftrightarrow>
          unseen seen (vs ! i) \<and> signature v \<noteq> signature (vs ! i)"
        by (cases "signature (vs ! i)") (auto simp: unseen_def sg)
      then show ?thesis
        by (auto simp: All_less_Suc2)
    qed
    from Cons.prems sg False have "dedup_loop vs (insert sg seen) (uniq @ [v]) = Inr out" by simp
    from Cons.IH [OF this] show ?thesis
      unfolding split PS P0 using False by simp
  qed
qed

lemma dedup_loop_distinct:
  "dedup_loop vs seen uniq = Inr out \<Longrightarrow>
     \<exists>rest. out = uniq @ rest \<and> distinct (map signature rest) \<and>
            (\<forall>v \<in> set rest. \<exists>sg. signature v = Inr sg \<and> sg \<notin> seen)"
proof (induction vs arbitrary: seen uniq)
  case Nil
  then show ?case by simp
next
  case (Cons v vs)
  from Cons.prems obtain sg where sg: "signature v = Inr sg"
    by (cases "signature v") simp_all
  show ?case
  proof (cases "sg \<in> seen")
    case True
    with Cons.prems sg have "dedup_loop vs seen uniq = Inr out" by simp
    from Cons.IH [OF this] show ?thesis .
  next
    case False
    with Cons.prems sg have "dedup_loop vs (insert sg seen) (uniq @ [v]) = Inr out" by simp
    from Cons.IH [OF this] obtain rest where r: "out = (uniq @ [v]) @ rest"
      "distinct (map signature rest)"
      "\<forall>x \<in> set rest. \<exists>s. signature x = Inr s \<and> s \<notin> insert sg seen"
      by blast
    from r(3) have n: "signature v \<notin> signature ` set rest"
      using sg by force
    have "out = uniq @ (v # rest)" using r(1) by simp
    moreover have "distinct (map signature (v # rest))" using r(2) n by simp
    moreover have "\<forall>x \<in> set (v # rest). \<exists>s. signature x = Inr s \<and> s \<notin> seen"
    proof -
      have "\<exists>s. signature v = Inr s \<and> s \<notin> seen" using sg False by blast
      moreover have "\<forall>x \<in> set rest. \<exists>s. signature x = Inr s \<and> s \<notin> seen"
        using r(3) by blast
      ultimately show ?thesis by simp
    qed
    ultimately show ?thesis by blast
  qed
qed

lemma dedup_loop_keeps:
  "distinct (map signature xs) \<Longrightarrow>
   \<forall>v \<in> set xs. \<exists>sg. signature v = Inr sg \<and> sg \<notin> seen \<Longrightarrow>
   dedup_loop xs seen uniq = Inr (uniq @ xs)"
proof (induction xs arbitrary: seen uniq)
  case Nil
  show ?case by simp
next
  case (Cons v xs)
  from Cons.prems(2) obtain sg where sg: "signature v = Inr sg" "sg \<notin> seen"
    by auto
  have d: "distinct (map signature xs)" using Cons.prems(1) by simp
  have "\<forall>x \<in> set xs. \<exists>s. signature x = Inr s \<and> s \<notin> insert sg seen"
  proof
    fix x
    assume x: "x \<in> set xs"
    with Cons.prems(2) obtain s where s: "signature x = Inr s" "s \<notin> seen" by auto
    from Cons.prems(1) have "signature v \<notin> signature ` set xs" by simp
    moreover from x have "signature x \<in> signature ` set xs" by (rule imageI)
    ultimately have "signature x \<noteq> signature v" by metis
    with s sg show "\<exists>s. signature x = Inr s \<and> s \<notin> insert sg seen" by auto
  qed
  from Cons.IH [OF d this, of "uniq @ [v]"] sg show ?case by simp
qed

lemma unseen_empty: "unseen {} v"
  by (simp add: unseen_def split: sum.splits)

text \<open>
  C8: when \<^verbatim>\<open>deduplicate_views\<close> returns, running it on its output returns that output,
  and the output consists of the first occurrence of each signature, in the original
  order. (It raises \<^verbatim>\<open>IndexError\<close> on a view with a blank table specification.)
\<close>

theorem deduplicate_views_idempotent:
  assumes "deduplicate_views views = Inr out"
  shows "deduplicate_views out = Inr out \<and> out = first_occurrences signature views"
proof
  from dedup_loop_distinct [OF assms [unfolded deduplicate_views_def]]
  have "distinct (map signature out)" "\<forall>v \<in> set out. \<exists>sg. signature v = Inr sg \<and> sg \<notin> {}"
    by auto
  from dedup_loop_keeps [OF this, of "[]"] show "deduplicate_views out = Inr out"
    by (simp add: deduplicate_views_def)
  from dedup_loop_firsts [OF assms [unfolded deduplicate_views_def]]
  show "out = first_occurrences signature views"
    by (simp add: first_occurrences_def unseen_empty)
qed

text \<open>Witness for C8: of the three views the first two are kept.\<close>

theorem deduplicate_views_idempotent_witness:
  "deduplicate_views three_views = Inr [orders_view, misplaced_view] \<and>
   deduplicate_views [orders_view, misplaced_view] = Inr [orders_view, misplaced_view] \<and>
   first_occurrences signature three_views = [orders_view, misplaced_view]"
proof -
  have d: "deduplicate_views three_views = Inr [orders_view, misplaced_view]"
    by code_simp
  from deduplicate_views_idempotent [OF d]
  have i: "deduplicate_views [orders_view, misplaced_view] = Inr [orders_view, misplaced_view]"
    and f: "[orders_view, misplaced_view] = first_occurrences signature three_views"
    by blast+
  show ?thesis
    by (intro conjI) (rule d, rule i, rule f [symmetric])
qed

section \<open>Symmetry of the join-path lookup\<close>

lemma succs_edge_keys: "v \<in> set (succs g u) \<longleftrightarrow> (u, v) \<in> edge_keys g"
  by (force simp: succs_def edge_keys_def)

lemma heads_simps:
  "heads [] = {}"
  "heads ([] # ps) = heads ps"
  "heads ((u # p) # ps) = insert u (heads ps)"
  "heads (ps @ qs) = heads ps \<union> heads qs"
  by (auto simp: heads_def)

lemma heads_map_Cons: "heads (map (\<lambda>v. v # p) ns) = set ns"
  by (auto simp: heads_def)

lemma bfs_None_closed:
  "bfs g visited queue t = None \<Longrightarrow>
   \<forall>x \<in> set visited. x \<in> heads queue \<or> (x \<noteq> t \<and> set (succs g x) \<subseteq> set visited) \<Longrightarrow>
   \<exists>V. set visited \<subseteq> V \<and> t \<notin> V \<and> (\<forall>x \<in> V. set (succs g x) \<subseteq> V)"
proof (induction g visited queue t rule: bfs.induct)
  case (1 g visited t)
  then have "\<forall>x \<in> set visited. x \<noteq> t \<and> set (succs g x) \<subseteq> set visited"
    by (simp add: heads_simps)
  then have "set visited \<subseteq> set visited \<and> t \<notin> set visited \<and>
      (\<forall>x \<in> set visited. set (succs g x) \<subseteq> set visited)"
    by blast
  then show ?case by (rule exI)
next
  case (2 g visited ps t)
  from "2.prems" show ?case
    by (intro "2.IH") (simp_all add: heads_simps)
next
  case (3 g visited u p ps t)
  define ns where "ns = filter (\<lambda>v. v \<notin> set visited) (remdups (succs g u))"
  from "3.prems"(1) have ut: "u \<noteq> t"
    by (auto split: if_splits)
  with "3.prems"(1) have n: "bfs g (visited @ ns) (ps @ map (\<lambda>v. v # u # p) ns) t = None"
    by (simp add: ns_def Let_def)
  have su: "set (succs g u) \<subseteq> set (visited @ ns)"
    by (auto simp: ns_def)
  have inv: "\<forall>x \<in> set (visited @ ns).
      x \<in> heads (ps @ map (\<lambda>v. v # u # p) ns) \<or>
      (x \<noteq> t \<and> set (succs g x) \<subseteq> set (visited @ ns))"
  proof
    fix x
    assume x: "x \<in> set (visited @ ns)"
    show "x \<in> heads (ps @ map (\<lambda>v. v # u # p) ns) \<or>
      (x \<noteq> t \<and> set (succs g x) \<subseteq> set (visited @ ns))"
    proof (cases "x \<in> set ns")
      case True
      then show ?thesis by (simp add: heads_simps heads_map_Cons)
    next
      case False
      with x have xv: "x \<in> set visited" by simp
      with "3.prems"(2) have "x \<in> heads ((u # p) # ps) \<or>
          (x \<noteq> t \<and> set (succs g x) \<subseteq> set visited)"
        by blast
      then consider "x = u" | "x \<in> heads ps" | "x \<noteq> t \<and> set (succs g x) \<subseteq> set visited"
        by (auto simp: heads_simps)
      then show ?thesis
      proof cases
        case 1
        with ut su show ?thesis by blast
      next
        case 2
        then show ?thesis by (simp add: heads_simps)
      next
        case 3
        then show ?thesis by auto
      qed
    qed
  qed
  from "3.IH" [OF ut ns_def n inv] obtain V where
    "set (visited @ ns) \<subseteq> V" "t \<notin> V" "\<forall>x \<in> V. set (succs g x) \<subseteq> V"
    by blast
  then have "set visited \<subseteq> V \<and> t \<notin> V \<and> (\<forall>x \<in> V. set (succs g x) \<subseteq> V)"
    by simp
  then show ?case by (rule exI)
qed

lemma closed_rtrancl:
  assumes "(s, x) \<in> (edge_keys g)\<^sup>*" and "s \<in> V" and "\<forall>x \<in> V. set (succs g x) \<subseteq> V"
  shows "x \<in> V"
  using assms(1)
proof (induction rule: rtrancl_induct)
  case base
  show ?case by (rule assms(2))
next
  case (step y z)
  from step(2) have "z \<in> set (succs g y)" by (simp add: succs_edge_keys)
  with step(3) assms(3) show ?case by blast
qed

lemma chain_snoc:
  "xs \<noteq> [] \<Longrightarrow> chain g (xs @ [v]) \<longleftrightarrow> chain g xs \<and> (last xs, v) \<in> edge_keys g"
proof (induction g xs rule: chain.induct)
  case (1 g)
  then show ?case by simp
next
  case (2 g a)
  then show ?case by simp
next
  case (3 g a b rest)
  then show ?case by simp
qed

lemma chain_rtrancl:
  "xs \<noteq> [] \<Longrightarrow> chain g xs \<Longrightarrow> (hd xs, last xs) \<in> (edge_keys g)\<^sup>*"
proof (induction g xs rule: chain.induct)
  case (1 g)
  then show ?case by simp
next
  case (2 g a)
  then show ?case by simp
next
  case (3 g a b rest)
  then have "(a, b) \<in> edge_keys g" "(b, last (b # rest)) \<in> (edge_keys g)\<^sup>*"
    by simp_all
  then show ?case by (simp add: converse_rtrancl_into_rtrancl)
qed

lemma bfs_Some_chain:
  "bfs g visited queue t = Some path \<Longrightarrow>
   \<forall>p \<in> set queue. p \<noteq> [] \<longrightarrow> last p = s \<and> chain g (rev p) \<Longrightarrow>
   path \<noteq> [] \<and> hd path = s \<and> last path = t \<and> chain g path"
proof (induction g visited queue t rule: bfs.induct)
  case (1 g visited t)
  then show ?case by simp
next
  case (2 g visited ps t)
  from "2.prems" show ?case
    by (intro "2.IH") simp_all
next
  case (3 g visited u p ps t)
  define ns where "ns = filter (\<lambda>v. v \<notin> set visited) (remdups (succs g u))"
  from "3.prems"(2) have up: "last (u # p) = s" "chain g (rev (u # p))"
    by simp_all
  show ?case
  proof (cases "u = t")
    case True
    with "3.prems"(1) have "path = rev (u # p)" by simp
    with up True show ?thesis
      by (simp add: hd_rev last_rev del: rev.simps last.simps)
  next
    case False
    with "3.prems"(1) have n: "bfs g (visited @ ns) (ps @ map (\<lambda>v. v # u # p) ns) t = Some path"
      by (simp add: ns_def Let_def)
    have inv: "\<forall>q \<in> set (ps @ map (\<lambda>v. v # u # p) ns).
        q \<noteq> [] \<longrightarrow> last q = s \<and> chain g (rev q)"
    proof (intro ballI impI)
      fix q
      assume q: "q \<in> set (ps @ map (\<lambda>v. v # u # p) ns)" and "q \<noteq> []"
      show "last q = s \<and> chain g (rev q)"
      proof (cases "q \<in> set ps")
        case True
        with "3.prems"(2) \<open>q \<noteq> []\<close> show ?thesis by simp
      next
        case False
        with q obtain v where v: "v \<in> set ns" "q = v # u # p" by auto
        from v(1) have "(u, v) \<in> edge_keys g"
          by (simp add: ns_def succs_edge_keys)
        moreover have "rev q = rev (u # p) @ [v]" using v(2) by simp
        moreover have "last (rev (u # p)) = u" by simp
        ultimately have "chain g (rev q)"
          using up(2) chain_snoc [of "rev (u # p)" g v] by simp
        with up(1) v(2) show ?thesis by simp
      qed
    qed
    from "3.IH" [OF False ns_def n inv] show ?thesis .
  qed
qed

lemma shortest_path_None_iff:
  "shortest_path g s t = None \<longleftrightarrow> (s, t) \<notin> (edge_keys g)\<^sup>*"
proof
  assume n: "shortest_path g s t = None"
  have "\<forall>x \<in> set [s]. x \<in> heads [[s]] \<or> (x \<noteq> t \<and> set (succs g x) \<subseteq> set [s])"
    by (simp add: heads_simps)
  from bfs_None_closed [OF n [unfolded shortest_path_def] this]
  obtain V where V: "s \<in> V" "t \<notin> V" "\<forall>x \<in> V. set (succs g x) \<subseteq> V"
    by auto
  show "(s, t) \<notin> (edge_keys g)\<^sup>*"
  proof
    assume "(s, t) \<in> (edge_keys g)\<^sup>*"
    from closed_rtrancl [OF this V(1,3)] V(2) show False by simp
  qed
next
  assume r: "(s, t) \<notin> (edge_keys g)\<^sup>*"
  show "shortest_path g s t = None"
  proof (rule ccontr)
    assume "shortest_path g s t \<noteq> None"
    then obtain path where p: "bfs g [s] [[s]] t = Some path"
      by (auto simp: shortest_path_def)
    have "\<forall>p \<in> set [[s]]. p \<noteq> [] \<longrightarrow> last p = s \<and> chain g (rev p)"
      by simp
    from bfs_Some_chain [OF p this] have "path \<noteq> []" "hd path = s" "last path = t" "chain g path"
      by simp_all
    with chain_rtrancl [of path g] r show False by simp
  qed
qed

lemma shortest_path_hops:
  assumes "shortest_path g s t = Some path"
  shows "hops g path = [] \<longleftrightarrow> s = t"
proof (cases "s = t")
  case True
  with assms have "path = [s]" by (simp add: shortest_path_def)
  with True show ?thesis by simp
next
  case False
  have "\<forall>p \<in> set [[s]]. p \<noteq> [] \<longrightarrow> last p = s \<and> chain g (rev p)"
    by simp
  from bfs_Some_chain [OF assms [unfolded shortest_path_def] this]
  have p: "path \<noteq> []" "hd path = s" "last path = t" "chain g path"
    by simp_all
  from p(1,2) obtain rest where r: "path = s # rest" by (cases path) auto
  with p(3) False obtain b rest' where r': "rest = b # rest'" by (cases rest) auto
  from p(4) r r' have "(s, b) \<in> edge_keys g" by simp
  then obtain e where "get_edge_data g s b = Some e"
    using get_edge_data_None_iff [of g s b] by auto
  with r r' have "hops g path \<noteq> []" by simp
  with False show ?thesis by simp
qed

lemma sym_parsed_graph:
  assumes "parse tds = Inr S"
  shows "sym (edge_keys (relationship_graph S))"
proof -
  from parse_structure [OF assms] have e: "edge_keys (relationship_graph S) =
      (\<Union>p \<in> {p \<in> set (declared S). accepted S p}. fk_edges p)" by blast
  show ?thesis
    unfolding e by (rule symI) (auto simp: fk_edges_def)
qed

lemma get_join_path_None_iff:
  "get_join_path S A B = None \<longleftrightarrow>
     A \<noteq> B \<and> \<not> connects S (normalize (map fst (tables S)) A None) (normalize (map fst (tables S)) B None)"
proof (cases "A = B")
  case True
  then show ?thesis by (simp add: get_join_path_def)
next
  case False
  let ?g = "relationship_graph S"
  let ?t1 = "normalize (map fst (tables S)) A None"
  let ?t2 = "normalize (map fst (tables S)) B None"
  show ?thesis
  proof (cases "falsy ?t1 \<or> falsy ?t2 \<or> get_or ?t1 [] \<notin> set (nodes ?g) \<or> get_or ?t2 [] \<notin> set (nodes ?g)")
    case True
    then have "get_join_path S A B = None"
      using False by (auto simp: get_join_path_def Let_def)
    moreover from True have "\<not> connects S ?t1 ?t2"
      by (auto simp: connects_def)
    ultimately show ?thesis using False by simp
  next
    case ok: False
    show ?thesis
    proof (cases "shortest_path ?g (get_or ?t1 []) (get_or ?t2 [])")
      case None
      then have "(get_or ?t1 [], get_or ?t2 []) \<notin> (edge_keys ?g)\<^sup>*"
        by (simp add: shortest_path_None_iff)
      then have "\<not> connects S ?t1 ?t2"
        by (simp add: connects_def)
      moreover from None ok False have "get_join_path S A B = None"
        by (simp add: get_join_path_def Let_def)
      ultimately show ?thesis using False by simp
    next
      case (Some path)
      then have r: "(get_or ?t1 [], get_or ?t2 []) \<in> (edge_keys ?g)\<^sup>*"
        using shortest_path_None_iff [of ?g "get_or ?t1 []" "get_or ?t2 []"] by simp
      from shortest_path_hops [OF Some]
      have h: "hops ?g path = [] \<longleftrightarrow> get_or ?t1 [] = get_or ?t2 []" .
      from Some ok False have "get_join_path S A B = None \<longleftrightarrow> hops ?g path = []"
        by (simp add: get_join_path_def Let_def)
      moreover from ok r have "connects S ?t1 ?t2 \<longleftrightarrow> get_or ?t1 [] \<noteq> get_or ?t2 []"
        by (simp add: connects_def)
      ultimately show ?thesis using False h by simp
    qed
  qed
qed

text \<open>
  C7: over a schema that the builder has produced, \<^verbatim>\<open>get_join_path(A, B)\<close> returns a
  path exactly when \<^verbatim>\<open>get_join_path(B, A)\<close> does.
\<close>

theorem join_path_symmetric:
  assumes "parse tds = Inr S"
  shows "get_join_path S A B = None \<longleftrightarrow> get_join_path S B A = None"
proof -
  have "sym ((edge_keys (relationship_graph S))\<^sup>*)"
    by (rule sym_rtrancl) (rule sym_parsed_graph [OF assms])
  then have "connects S x y \<longleftrightarrow> connects S y x" for x y
    unfolding connects_def by (auto dest: symD)
  then show ?thesis
    unfolding get_join_path_None_iff by auto
qed

text \<open>
  Witness for C7: orders and customers are joined in both directions, orders and products
  in neither.
\<close>

theorem join_path_symmetric_witness:
  "get_join_path (schema_of shop_doc) ''orders'' ''customers'' \<noteq> None \<and>
   get_join_path (schema_of shop_doc) ''customers'' ''orders'' \<noteq> None \<and>
   get_join_path (schema_of shop_doc) ''orders'' ''products'' = None \<and>
   get_join_path (schema_of shop_doc) ''products'' ''orders'' = None"
proof -
  have p: "parse shop_doc = Inr (schema_of shop_doc)"
    by code_simp
  have a: "get_join_path (schema_of shop_doc) ''orders'' ''customers'' \<noteq> None"
    and b: "get_join_path (schema_of shop_doc) ''orders'' ''products'' = None"
    by code_simp+
  from join_path_symmetric [OF p, of "''orders''" "''customers''"]
    join_path_symmetric [OF p, of "''orders''" "''products''"] a b
  show ?thesis by simp
qed

end
